theory Spec2Isabelle
  imports Complex_Main "HOL-Library.List_Lexorder"
begin

section \<open>The knight's tour solver of Knight.py\<close>

text \<open>
  A shallow embedding of class \<open>KnightsTour\<close>. The object is a record of the fields the
  solvers read and write (\<open>size\<close>, \<open>board\<close>, \<open>path\<close>); every method takes the record
  and returns the updated one. Python's unbounded integers are \<open>int\<close>. The list
  \<open>variation_stats\<close> (one entry per attempt) is threaded beside the record by the
  orchestrator; \<open>debug_log\<close>, printing, the files written by \<open>_save_*\<close>, the timestamp
  and the per-move trace \<open>move_tracking\<close> have no influence on the board, the path or a
  return value and are left out. Python floats are modelled as exact rationals.
\<close>

subsection \<open>Data\<close>

datatype error = IndexError

type_synonym pos = "int \<times> int"

record knights_tour =
  size_kt :: int
  board :: "int list list"
  path :: "pos list"

definition moves_x :: "int list" where
  "moves_x = [2, 1, -1, -2, -2, -1, 1, 2]"

definition moves_y :: "int list" where
  "moves_y = [1, 2, 2, 1, -1, -2, -2, -1]"

text \<open>\<open>[[-1 for _ in range(size)] for _ in range(size)]\<close>; \<open>range\<close> of a non-positive
  number is empty, as \<open>nat\<close> of it is 0.\<close>

definition empty_board :: "int \<Rightarrow> int list list" where
  "empty_board n = replicate (nat n) (replicate (nat n) (- 1))"

text \<open>\<open>__init__\<close>\<close>

definition KnightsTour :: "int \<Rightarrow> knights_tour" where
  "KnightsTour n = \<lparr>size_kt = n, board = empty_board n, path = []\<rparr>"

text \<open>Python's index normalisation for a list of length \<open>n\<close>: a negative index counts
  from the end, anything outside \<open>[-n, n)\<close> raises.\<close>

definition py_index :: "nat \<Rightarrow> int \<Rightarrow> nat option" where
  "py_index n i =
     (if 0 \<le> i \<and> i < int n then Some (nat i)
      else if - int n \<le> i \<and> i < 0 then Some (nat (i + int n))
      else None)"

text \<open>\<open>self.board[x][y] = v\<close> for coordinates that nothing has checked (the start cell).\<close>

definition board_store :: "int list list \<Rightarrow> int \<Rightarrow> int \<Rightarrow> int \<Rightarrow> error + int list list" where
  "board_store b x y v =
     (case py_index (length b) x of
        None \<Rightarrow> Inl IndexError
      | Some i \<Rightarrow>
          (case py_index (length (b ! i)) y of
             None \<Rightarrow> Inl IndexError
           | Some j \<Rightarrow> Inr (b[i := (b ! i)[j := v]])))"

text \<open>\<open>self.board[x][y]\<close> and \<open>self.board[x][y] = v\<close> at coordinates that the caller has
  checked to lie in \<open>[0, size)\<close>; the board is \<open>size \<times> size\<close> (only \<open>__init__\<close> and the
  resets assign it), so the index is in range.\<close>

definition board_at :: "int list list \<Rightarrow> int \<Rightarrow> int \<Rightarrow> int" where
  "board_at b x y = b ! nat x ! nat y"

definition board_set :: "int list list \<Rightarrow> int \<Rightarrow> int \<Rightarrow> int \<Rightarrow> int list list" where
  "board_set b x y v = b[nat x := (b ! nat x)[nat y := v]]"

subsection \<open>Legal moves\<close>

definition is_valid_move :: "knights_tour \<Rightarrow> int \<Rightarrow> int \<Rightarrow> bool" where
  "is_valid_move s x y =
     (0 \<le> x \<and> x < size_kt s \<and> 0 \<le> y \<and> y < size_kt s \<and> board_at (board s) x y = - 1)"

text \<open>\<open>_count_valid_moves\<close>: the loop over \<open>range(8)\<close> with its counter.\<close>

fun count_from :: "knights_tour \<Rightarrow> int \<Rightarrow> int \<Rightarrow> nat list \<Rightarrow> int \<Rightarrow> int" where
  "count_from s x y [] count = count"
| "count_from s x y (i # is) count =
     (if is_valid_move s (x + moves_x ! i) (y + moves_y ! i)
      then count_from s x y is (count + 1)
      else count_from s x y is count)"

definition count_valid_moves :: "knights_tour \<Rightarrow> int \<Rightarrow> int \<Rightarrow> int" where
  "count_valid_moves s x y = count_from s x y [0..<8] 0"

subsection \<open>Placing and undoing a move\<close>

text \<open>The statement pair \<open>self.board[next_x][next_y] = move_count;
  self.path.append((next_x, next_y))\<close> of the three search loops, and the undo
  \<open>x, y = self.path.pop(); self.board[x][y] = -1\<close> of the backtracking loop (for a
  non-empty path).\<close>

definition place_move :: "knights_tour \<Rightarrow> int \<Rightarrow> int \<Rightarrow> int \<Rightarrow> knights_tour" where
  "place_move s next_x next_y move_count =
     s\<lparr>board := board_set (board s) next_x next_y move_count,
       path := path s @ [(next_x, next_y)]\<rparr>"

definition undo_move :: "knights_tour \<Rightarrow> knights_tour" where
  "undo_move s =
     (case last (path s) of (x, y) \<Rightarrow>
        s\<lparr>path := butlast (path s), board := board_set (board s) x y (- 1)\<rparr>)"

subsection \<open>Warnsdorff's heuristic\<close>

text \<open>The module \<open>random\<close> is not part of the repository: its generator state is a type
  \<open>'g\<close> and its three functions used here are parameters. \<open>random.random()\<close> returns a
  value and the next state; \<open>random.shuffle\<close> returns the shuffled list and the next
  state; \<open>random.seed\<close> gives the state for a seed.\<close>

record 'g rng =
  seed_rng :: "int \<Rightarrow> 'g"
  shuffle_rng :: "'g \<Rightarrow> nat list \<Rightarrow> nat list \<times> 'g"
  random_rng :: "'g \<Rightarrow> rat \<times> 'g"

text \<open>A score is a Python tuple of numbers; tuples compare lexicographically, as lists
  do here.\<close>

type_synonym score = "rat list"

type_synonym scoring = "knights_tour \<Rightarrow> int \<Rightarrow> int \<Rightarrow> int \<Rightarrow> rat \<Rightarrow> nat \<Rightarrow> score"

definition score_random :: scoring where
  "score_random s next_x next_y degree random_factor pref_idx =
     [of_int degree + random_factor]"

definition score_center :: scoring where
  "score_center s next_x next_y degree random_factor pref_idx =
     (let center_x = size_kt s div 2;
          center_y = size_kt s div 2;
          dist_to_center = \<bar>next_x - center_x\<bar> + \<bar>next_y - center_y\<bar>
      in [of_int degree, of_int dist_to_center + random_factor])"

definition score_corners :: scoring where
  "score_corners s next_x next_y degree random_factor pref_idx =
     (let corners = [(0, 0), (0, size_kt s - 1), (size_kt s - 1, 0),
                     (size_kt s - 1, size_kt s - 1)];
          min_corner_dist =
            min_list (map (\<lambda>(cx, cy). \<bar>next_x - cx\<bar> + \<bar>next_y - cy\<bar>) corners)
      in [of_int degree, of_int (- min_corner_dist) + random_factor])"

text \<open>The \<open>for pref_idx in move_preferences\<close> loop of
  \<open>_get_next_move_warnsdorff_generic_detailed\<close>: the list \<open>moves\<close> of scored legal
  candidates \<open>(score, next_x, next_y)\<close>, in the order of the preferences.
  \<open>self.moves_x[pref_idx]\<close> raises for an index of 8 or more. The dictionaries
  \<open>details\<close> and \<open>considered_moves\<close> only feed the trace.\<close>

fun consider_moves ::
  "('g \<Rightarrow> rat \<times> 'g) \<Rightarrow> scoring \<Rightarrow> knights_tour \<Rightarrow> int \<Rightarrow> int \<Rightarrow> nat list \<Rightarrow> 'g
     \<Rightarrow> error + ((score \<times> int \<times> int) list \<times> 'g)" where
  "consider_moves rnd scoring_func s x y [] g = Inr ([], g)"
| "consider_moves rnd scoring_func s x y (pref_idx # prefs) g =
     (if 8 \<le> pref_idx then Inl IndexError
      else
        (let next_x = x + moves_x ! pref_idx; next_y = y + moves_y ! pref_idx
         in if is_valid_move s next_x next_y then
              (let degree = count_valid_moves s next_x next_y;
                   (r, g') = rnd g;
                   random_factor = r * (1 / 10);
                   score = scoring_func s next_x next_y degree random_factor pref_idx
               in (case consider_moves rnd scoring_func s x y prefs g' of
                     Inl e \<Rightarrow> Inl e
                   | Inr (moves, g'') \<Rightarrow> Inr ((score, next_x, next_y) # moves, g'')))
            else consider_moves rnd scoring_func s x y prefs g))"

text \<open>\<open>moves.sort(key=lambda m: m[0])\<close> is a stable sort, and so is \<open>sort_key\<close>: the
  first element of the result is the first candidate of least score.\<close>

definition get_next_move_warnsdorff_generic_detailed ::
  "('g \<Rightarrow> rat \<times> 'g) \<Rightarrow> scoring \<Rightarrow> knights_tour \<Rightarrow> int \<Rightarrow> int \<Rightarrow> nat list \<Rightarrow> 'g
     \<Rightarrow> error + (pos option \<times> 'g)" where
  "get_next_move_warnsdorff_generic_detailed rnd scoring_func s x y move_preferences g =
     (case consider_moves rnd scoring_func s x y move_preferences g of
        Inl e \<Rightarrow> Inl e
      | Inr (moves, g') \<Rightarrow>
          (if moves = [] then Inr (None, g')
           else (let best_move = hd (sort_key fst moves)
                 in Inr (Some (fst (snd best_move), snd (snd best_move)), g'))))"

text \<open>The loop \<open>for move_count in range(1, self.size * self.size)\<close> shared by
  \<open>solve_with_warnsdorff\<close> and \<open>_solve_with_warnsdorff_variation\<close>.\<close>

fun warnsdorff_loop ::
  "('g \<Rightarrow> rat \<times> 'g) \<Rightarrow> scoring \<Rightarrow> nat list \<Rightarrow> int list \<Rightarrow> knights_tour \<Rightarrow> int \<Rightarrow> int \<Rightarrow> 'g
     \<Rightarrow> error + (bool \<times> knights_tour \<times> 'g)" where
  "warnsdorff_loop rnd scoring_func move_preferences [] s curr_x curr_y g = Inr (True, s, g)"
| "warnsdorff_loop rnd scoring_func move_preferences (move_count # rest) s curr_x curr_y g =
     (case get_next_move_warnsdorff_generic_detailed rnd scoring_func s curr_x curr_y
             move_preferences g of
        Inl e \<Rightarrow> Inl e
      | Inr (None, g') \<Rightarrow> Inr (False, s, g')
      | Inr (Some (next_x, next_y), g') \<Rightarrow>
          warnsdorff_loop rnd scoring_func move_preferences rest
            (place_move s next_x next_y move_count) next_x next_y g')"

definition solve_with_warnsdorff_variation ::
  "('g \<Rightarrow> rat \<times> 'g) \<Rightarrow> knights_tour \<Rightarrow> int \<Rightarrow> int \<Rightarrow> int \<Rightarrow> nat list \<Rightarrow> 'g
     \<Rightarrow> error + (bool \<times> knights_tour \<times> 'g)" where
  "solve_with_warnsdorff_variation rnd s start_x start_y variation move_preferences g =
     (let scoring_func =
            (if variation = 1 then score_center
             else if variation = 2 then score_corners
             else score_random)
      in case board_store (board s) start_x start_y 0 of
           Inl e \<Rightarrow> Inl e
         | Inr b \<Rightarrow>
             warnsdorff_loop rnd scoring_func move_preferences
               [1..size_kt s * size_kt s - 1]
               (s\<lparr>board := b, path := [(start_x, start_y)]\<rparr>) start_x start_y g)"

definition solve_with_warnsdorff ::
  "'g rng \<Rightarrow> knights_tour \<Rightarrow> int \<Rightarrow> int \<Rightarrow> string \<Rightarrow> 'g
     \<Rightarrow> error + (bool \<times> knights_tour \<times> 'g)" where
  "solve_with_warnsdorff R s start_x start_y mode g =
     (let scoring_func =
            (if mode = ''center'' then score_center
             else if mode = ''corners'' then score_corners
             else score_random);
          (move_preferences, g1) = shuffle_rng R g [0..<8]
      in case board_store (board s) start_x start_y 0 of
           Inl e \<Rightarrow> Inl e
         | Inr b \<Rightarrow>
             warnsdorff_loop (random_rng R) scoring_func move_preferences
               [1..size_kt s * size_kt s - 1]
               (s\<lparr>board := b, path := [(start_x, start_y)]\<rparr>) start_x start_y g1)"

subsection \<open>The path fingerprint\<close>

text \<open>\<open>str\<close> of an integer, of a pair and of a list of pairs, as Python prints them.\<close>

function str_nat :: "nat \<Rightarrow> string" where
  "str_nat n =
     (if n < 10 then [''0123456789'' ! n]
      else str_nat (n div 10) @ [''0123456789'' ! (n mod 10)])"
  by pat_completeness auto
termination
  by (relation "measure id") auto

declare str_nat.simps [simp del]

definition str_int :: "int \<Rightarrow> string" where
  "str_int i = (if i < 0 then CHR ''-'' # str_nat (nat (- i)) else str_nat (nat i))"

definition str_pos :: "pos \<Rightarrow> string" where
  "str_pos p = ''('' @ str_int (fst p) @ '', '' @ str_int (snd p) @ '')''"

fun join_str :: "string \<Rightarrow> string list \<Rightarrow> string" where
  "join_str sep [] = []"
| "join_str sep [x] = x"
| "join_str sep (x # y # zs) = x @ sep @ join_str sep (y # zs)"

definition str_path :: "pos list \<Rightarrow> string" where
  "str_path ps = ''['' @ join_str '', '' (map str_pos ps) @ '']''"

text \<open>The slice \<open>xs[i:]\<close>: a negative start counts from the end and is clamped at 0
  (so \<open>xs[-0:]\<close> is the whole list).\<close>

definition slice_from :: "'a list \<Rightarrow> int \<Rightarrow> 'a list" where
  "slice_from xs i =
     (if i < 0 then drop (nat (max 0 (int (length xs) + i))) xs else drop (nat i) xs)"

text \<open>\<open>_get_path_hash\<close>; the builtin \<open>hash\<close> on strings is a parameter.\<close>

definition get_path_hash :: "(string \<Rightarrow> int) \<Rightarrow> knights_tour \<Rightarrow> int" where
  "get_path_hash hash s =
     (let sample_size = min 100 (int (length (path s)) div 2);
          path_sample = str_path (take (nat sample_size) (path s))
                          @ str_path (slice_from (path s) (- sample_size))
      in hash path_sample)"

subsection \<open>Several attempts: \<open>solve_with_multiple_warnsdorff_attempts\<close>\<close>

text \<open>The dictionary \<open>variation_info\<close>, one field per key.\<close>

record attempt_info =
  info_attempt :: int
  info_variation_type :: int
  info_random_seed :: int
  info_move_preferences :: "nat list"
  info_start_position :: pos
  info_successful :: bool
  info_path_length :: nat

text \<open>The loop \<open>for attempt in range(max_attempts)\<close> over the attempts still to run;
  \<open>attempted_paths\<close> is the set of fingerprints, \<open>stats\<close> is \<open>self.variation_stats\<close>.\<close>

fun attempts_loop ::
  "'g rng \<Rightarrow> (string \<Rightarrow> int) \<Rightarrow> int \<Rightarrow> int \<Rightarrow> int list \<Rightarrow> knights_tour \<Rightarrow> int set
     \<Rightarrow> attempt_info list \<Rightarrow> 'g
     \<Rightarrow> error + (bool \<times> knights_tour \<times> attempt_info list \<times> 'g)" where
  "attempts_loop R hash start_x start_y [] s attempted_paths stats g =
     Inr (False, s, stats, g)"
| "attempts_loop R hash start_x start_y (attempt # rest) s attempted_paths stats g =
     (let variation = attempt mod 3;
          random_seed = attempt + size_kt s * 1000;
          g0 = seed_rng R random_seed;
          s1 = s\<lparr>board := empty_board (size_kt s), path := []\<rparr>;
          (move_preferences, g1) = shuffle_rng R g0 [0..<8]
      in case solve_with_warnsdorff_variation (random_rng R) s1 start_x start_y variation
                move_preferences g1 of
           Inl e \<Rightarrow> Inl e
         | Inr (success, s2, g2) \<Rightarrow>
             (let variation_info =
                    \<lparr>info_attempt = attempt + 1, info_variation_type = variation,
                      info_random_seed = random_seed,
                      info_move_preferences = move_preferences,
                      info_start_position = (start_x, start_y),
                      info_successful = success,
                      info_path_length = length (path s2)\<rparr>;
                  stats2 = stats @ [variation_info]
              in if success \<and> get_path_hash hash s2 \<notin> attempted_paths
                 then Inr (True, s2, stats2, g2)
                 else attempts_loop R hash start_x start_y rest s2
                        (if length (path s2) > 0
                         then insert (get_path_hash hash s2) attempted_paths
                         else attempted_paths)
                        stats2 g2))"

definition solve_with_multiple_warnsdorff_attempts ::
  "'g rng \<Rightarrow> (string \<Rightarrow> int) \<Rightarrow> knights_tour \<Rightarrow> int \<Rightarrow> int \<Rightarrow> int \<Rightarrow> 'g
     \<Rightarrow> error + (bool \<times> knights_tour \<times> attempt_info list \<times> 'g)" where
  "solve_with_multiple_warnsdorff_attempts R hash s start_x start_y max_attempts g =
     attempts_loop R hash start_x start_y [0..max_attempts - 1] s {} [] g"

subsection \<open>Iterative backtracking: \<open>solve\<close>\<close>

text \<open>A stack frame \<open>(move_count, curr_x, curr_y, i)\<close>; the top of the stack is the last
  element of the list, as in the source.\<close>

type_synonym frame = "int \<times> int \<times> int \<times> nat"

text \<open>The inner \<open>while i < 8 and not found_valid_move\<close>: the first index from \<open>i\<close> on
  whose move is legal, if any.\<close>

function next_valid :: "knights_tour \<Rightarrow> int \<Rightarrow> int \<Rightarrow> nat \<Rightarrow> nat option" where
  "next_valid s x y i =
     (if i < 8 then
        (if is_valid_move s (x + moves_x ! i) (y + moves_y ! i) then Some i
         else next_valid s x y (i + 1))
      else None)"
  by pat_completeness auto
termination
  by (relation "measure (\<lambda>(s, x, y, i). 8 - i)") auto

declare next_valid.simps [simp del]

datatype step = Return bool | Next knights_tour "frame list" | Raise error

text \<open>One pass through the body of \<open>while stack:\<close>, for a non-empty stack.
  \<open>self.path.pop()\<close> raises on an empty list.\<close>

definition solve_body :: "knights_tour \<Rightarrow> frame list \<Rightarrow> step" where
  "solve_body s stack =
     (case last stack of (move_count, curr_x, curr_y, i) \<Rightarrow>
        if move_count = size_kt s * size_kt s then Return True
        else
          (case next_valid s curr_x curr_y i of
             Some j \<Rightarrow>
               (let next_x = curr_x + moves_x ! j; next_y = curr_y + moves_y ! j
                in Next (place_move s next_x next_y move_count)
                        (butlast stack @ [(move_count, curr_x, curr_y, j + 1)]
                           @ [(move_count + 1, next_x, next_y, 0)]))
           | None \<Rightarrow>
               (if butlast stack \<noteq> [] then
                  (if path s = [] then Raise IndexError
                   else Next (undo_move s) (butlast stack))
                else Next s (butlast stack))))"

text \<open>The \<open>while stack:\<close> loop with the code after it. The loop has no bound of its own,
  so not returning is the value \<open>None\<close>.\<close>

partial_function (option) solve_loop ::
  "knights_tour \<Rightarrow> frame list \<Rightarrow> (error + bool \<times> knights_tour) option" where
  "solve_loop s stack =
     (if stack = []
      then Some (Inr (False, s\<lparr>board := empty_board (size_kt s), path := []\<rparr>))
      else
        (case solve_body s stack of
           Return b \<Rightarrow> Some (Inr (b, s))
         | Raise e \<Rightarrow> Some (Inl e)
         | Next s' stack' \<Rightarrow> solve_loop s' stack'))"

declare solve_loop.simps [code]

definition solve :: "knights_tour \<Rightarrow> int \<Rightarrow> int \<Rightarrow> (error + bool \<times> knights_tour) option" where
  "solve s start_x start_y =
     (case board_store (board s) start_x start_y 0 of
        Inl e \<Rightarrow> Some (Inl e)
      | Inr b \<Rightarrow>
          solve_loop (s\<lparr>board := b, path := [(start_x, start_y)]\<rparr>)
            [(1, start_x, start_y, 0)])"

section \<open>Specification\<close>

subsection \<open>Boards, knight moves and tours\<close>

text \<open>A position lies in the \<open>n \<times> n\<close> board; two positions are a knight move apart when
  their difference is one of the eight offsets \<open>(moves_x[i], moves_y[i])\<close>; a path is a
  knight path when all its consecutive positions are.\<close>

definition in_board :: "int \<Rightarrow> pos \<Rightarrow> bool" where
  "in_board n p = (0 \<le> fst p \<and> fst p < n \<and> 0 \<le> snd p \<and> snd p < n)"

definition knight_offsets :: "(int \<times> int) list" where
  "knight_offsets = zip moves_x moves_y"

definition knight_step :: "pos \<Rightarrow> pos \<Rightarrow> bool" where
  "knight_step p q = ((fst q - fst p, snd q - snd p) \<in> set knight_offsets)"

fun knight_path :: "pos list \<Rightarrow> bool" where
  "knight_path [] = True"
| "knight_path [p] = True"
| "knight_path (p # q # ps) = (knight_step p q \<and> knight_path (q # ps))"

text \<open>The board has the shape \<open>__init__\<close> gives it: \<open>n\<close> rows of \<open>n\<close> cells.\<close>

definition wf_board :: "int \<Rightarrow> int list list \<Rightarrow> bool" where
  "wf_board n b = (length b = nat n \<and> (\<forall>r \<in> set b. length r = nat n))"

text \<open>The board and the path agree: the path is made of distinct positions of the board,
  its \<open>j\<close>-th position holds \<open>j\<close>, and every position of the board outside the path holds
  \<open>-1\<close>.\<close>

definition board_inv :: "knights_tour \<Rightarrow> bool" where
  "board_inv s =
     (wf_board (size_kt s) (board s) \<and>
      (\<forall>p \<in> set (path s). in_board (size_kt s) p) \<and>
      distinct (path s) \<and>
      (\<forall>j < length (path s). board_at (board s) (fst (path s ! j)) (snd (path s ! j)) = int j) \<and>
      (\<forall>x y. in_board (size_kt s) (x, y) \<longrightarrow> (x, y) \<notin> set (path s)
               \<longrightarrow> board_at (board s) x y = - 1))"

subsection \<open>Invariants of the backtracking loop\<close>

text \<open>The frame at depth \<open>d\<close> of the stack has move count \<open>d + 1\<close> and the \<open>d\<close>-th position
  of the path, and its cursor is at most 8; when a frame lies above it, its cursor is
  one past the move that leads to the next position of the path.\<close>

definition frame_ok :: "pos list \<Rightarrow> frame list \<Rightarrow> nat \<Rightarrow> bool" where
  "frame_ok ps stack d =
     (case stack ! d of (mc, x, y, c) \<Rightarrow>
        mc = int d + 1 \<and> (x, y) = ps ! d \<and> c \<le> 8 \<and>
        (d + 1 < length stack \<longrightarrow>
           1 \<le> c \<and> ps ! (d + 1) = (x + moves_x ! (c - 1), y + moves_y ! (c - 1))))"

definition frames_inv :: "knights_tour \<Rightarrow> frame list \<Rightarrow> bool" where
  "frames_inv s stack =
     (length stack = length (path s) \<and>
      int (length stack) \<le> size_kt s * size_kt s \<and>
      (\<forall>d < length stack. frame_ok (path s) stack d))"

text \<open>A knight's tour of the \<open>n \<times> n\<close> board from \<open>start\<close>: a knight path of \<open>n\<^sup>2\<close> distinct
  positions of the board that begins at \<open>start\<close>.\<close>

definition is_tour :: "int \<Rightarrow> pos \<Rightarrow> pos list \<Rightarrow> bool" where
  "is_tour n start t =
     (length t = nat (n * n) \<and> t \<noteq> [] \<and> hd t = start \<and> (\<forall>p \<in> set t. in_board n p) \<and>
      distinct t \<and> knight_path t)"

text \<open>A tour is still pending in a state of the loop when it is the path itself, or when
  at some depth \<open>d\<close> it shares the first \<open>d + 1\<close> positions with the path and continues by
  a move that the cursor of the frame at depth \<open>d\<close> has not passed yet.\<close>

definition cursor :: "frame \<Rightarrow> nat" where
  "cursor fr = snd (snd (snd fr))"

definition pending :: "knights_tour \<Rightarrow> frame list \<Rightarrow> pos list \<Rightarrow> bool" where
  "pending s stack t =
     ((stack \<noteq> [] \<and> t = path s) \<or>
      (\<exists>d < length stack. take (d + 1) t = take (d + 1) (path s) \<and>
         (\<exists>k. cursor (stack ! d) \<le> k \<and> k < 8 \<and>
              t ! (d + 1) = (fst (path s ! d) + moves_x ! k, snd (path s ! d) + moves_y ! k))))"

text \<open>The measure of progress: the cursors of the stack, bottom first, read as the digits of
  a number with \<open>m\<close> digits in base 10, each missing frame counting as the digit 9. A
  push raises a digit and appends a 0; a pop replaces a digit below 9 by a 9.\<close>

fun weight :: "nat \<Rightarrow> nat list \<Rightarrow> nat" where
  "weight 0 cs = 0"
| "weight (Suc m) [] = 9 * 10 ^ m + weight m []"
| "weight (Suc m) (c # cs) = c * 10 ^ m + weight m cs"

text \<open>The invariant of \<open>while stack:\<close>.\<close>

definition solve_inv :: "int \<Rightarrow> pos \<Rightarrow> knights_tour \<Rightarrow> frame list \<Rightarrow> bool" where
  "solve_inv n start s stack =
     (size_kt s = n \<and> board_inv s \<and> path s \<noteq> [] \<and> hd (path s) = start \<and>
      (stack \<noteq> [] \<longrightarrow> frames_inv s stack) \<and>
      (\<forall>t. is_tour n start t \<longrightarrow> pending s stack t))"

subsection \<open>The order invariant, in the words of the specification\<close>

text \<open>With \<open>k\<close> the length of the path: each order value \<open>0..k-1\<close> is held by exactly one
  cell of the board, every cell holds \<open>-1\<close> or one of these values, and the \<open>j\<close>-th element
  of the path is a cell of the board that holds \<open>j\<close>.\<close>

definition cells :: "int \<Rightarrow> pos list" where
  "cells n = List.product [0..n - 1] [0..n - 1]"

definition cell_value :: "knights_tour \<Rightarrow> pos \<Rightarrow> int" where
  "cell_value s c = board_at (board s) (fst c) (snd c)"

definition order_invariant :: "knights_tour \<Rightarrow> bool" where
  "order_invariant s =
     (let k = int (length (path s)); cs = cells (size_kt s)
      in (\<forall>j \<in> set [0..k - 1]. length (filter (\<lambda>c. cell_value s c = j) cs) = 1) \<and>
         (\<forall>c \<in> set cs. cell_value s c = - 1 \<or> (0 \<le> cell_value s c \<and> cell_value s c < k)) \<and>
         (\<forall>j < length (path s). path s ! j \<in> set cs \<and> cell_value s (path s ! j) = int j))"

text \<open>The states of a search. For \<open>solve\<close>: the state after the start cell is placed, and
  every state that a pass of the loop body leads to. For the Warnsdorff loop: the state
  after the start cell is placed, with the move counts \<open>range(1, size * size)\<close> still
  to run, and every state after a placement.\<close>

inductive solve_reach :: "knights_tour \<Rightarrow> int \<Rightarrow> int \<Rightarrow> knights_tour \<Rightarrow> frame list \<Rightarrow> bool"
  for s0 :: knights_tour and start_x :: int and start_y :: int where
  solve_start:
    "board_store (board s0) start_x start_y 0 = Inr b \<Longrightarrow>
     solve_reach s0 start_x start_y (s0\<lparr>board := b, path := [(start_x, start_y)]\<rparr>)
       [(1, start_x, start_y, 0)]"
| solve_step:
    "solve_reach s0 start_x start_y s stack \<Longrightarrow> stack \<noteq> [] \<Longrightarrow>
     solve_body s stack = Next s' stack' \<Longrightarrow>
     solve_reach s0 start_x start_y s' stack'"

inductive warnsdorff_reach ::
  "('g \<Rightarrow> rat \<times> 'g) \<Rightarrow> scoring \<Rightarrow> nat list \<Rightarrow> knights_tour \<Rightarrow> int \<Rightarrow> int \<Rightarrow> 'g
     \<Rightarrow> int list \<Rightarrow> knights_tour \<Rightarrow> int \<Rightarrow> int \<Rightarrow> 'g \<Rightarrow> bool"
  for rnd :: "'g \<Rightarrow> rat \<times> 'g" and scoring_func :: scoring and move_preferences :: "nat list"
    and s0 :: knights_tour and start_x :: int and start_y :: int and g0 :: 'g where
  warnsdorff_start:
    "board_store (board s0) start_x start_y 0 = Inr b \<Longrightarrow>
     warnsdorff_reach rnd scoring_func move_preferences s0 start_x start_y g0
       [1..size_kt s0 * size_kt s0 - 1]
       (s0\<lparr>board := b, path := [(start_x, start_y)]\<rparr>) start_x start_y g0"
| warnsdorff_step:
    "warnsdorff_reach rnd scoring_func move_preferences s0 start_x start_y g0
       (move_count # rest) s curr_x curr_y g \<Longrightarrow>
     get_next_move_warnsdorff_generic_detailed rnd scoring_func s curr_x curr_y
       move_preferences g = Inr (Some (next_x, next_y), g') \<Longrightarrow>
     warnsdorff_reach rnd scoring_func move_preferences s0 start_x start_y g0
       rest (place_move s next_x next_y move_count) next_x next_y g'"

subsection \<open>Concrete inputs\<close>

text \<open>The tour that a Warnsdorff attempt finds on the \<open>5 \<times> 5\<close> board from \<open>(0, 0)\<close> with the
  identity preference order and all tie-breaks 0.\<close>

definition tour5 :: knights_tour where
  "tour5 =
     \<lparr>size_kt = 5,
      board = [[0, 21, 10, 15, 6], [11, 16, 7, 20, 9], [24, 1, 22, 5, 14],
               [17, 12, 3, 8, 19], [2, 23, 18, 13, 4]],
      path = [(0, 0), (2, 1), (4, 0), (3, 2), (4, 4), (2, 3), (0, 4), (1, 2),
              (3, 3), (1, 4), (0, 2), (1, 0), (3, 1), (4, 3), (2, 4), (0, 3),
              (1, 1), (3, 0), (4, 2), (3, 4), (1, 3), (0, 1), (2, 2), (4, 1),
              (2, 0)]\<rparr>"

subsection \<open>The attempts of the orchestrator, in the words of the specification\<close>

text \<open>Attempt \<open>i\<close>: strategy \<open>i mod 3\<close>, seed \<open>i + 1000 n\<close>, a preference order drawn by
  shuffling the eight move indices right after seeding, and a single Warnsdorff attempt
  on a fresh board with an empty path; \<open>spec_record\<close> is the record kept of it, and
  \<open>attempt_fp\<close> the fingerprint of the path it leaves.\<close>

definition spec_attempt ::
  "'g rng \<Rightarrow> int \<Rightarrow> int \<Rightarrow> int \<Rightarrow> int \<Rightarrow> error + (bool \<times> knights_tour \<times> 'g)" where
  "spec_attempt R n start_x start_y i =
     (let strategy = i mod 3;
          seed = i + 1000 * n;
          (preference_order, g) = shuffle_rng R (seed_rng R seed) [0..<8]
      in solve_with_warnsdorff_variation (random_rng R) (KnightsTour n) start_x start_y
           strategy preference_order g)"

definition spec_record :: "'g rng \<Rightarrow> int \<Rightarrow> int \<Rightarrow> int \<Rightarrow> int \<Rightarrow> attempt_info" where
  "spec_record R n start_x start_y i =
     \<lparr>info_attempt = i + 1,
      info_variation_type = i mod 3,
      info_random_seed = i + 1000 * n,
      info_move_preferences = fst (shuffle_rng R (seed_rng R (i + 1000 * n)) [0..<8]),
      info_start_position = (start_x, start_y),
      info_successful =
        (case spec_attempt R n start_x start_y i of Inr (b, s, g) \<Rightarrow> b | Inl e \<Rightarrow> False),
      info_path_length =
        (case spec_attempt R n start_x start_y i of Inr (b, s, g) \<Rightarrow> length (path s)
         | Inl e \<Rightarrow> 0)\<rparr>"

definition attempt_fp :: "'g rng \<Rightarrow> (string \<Rightarrow> int) \<Rightarrow> int \<Rightarrow> int \<Rightarrow> int \<Rightarrow> int \<Rightarrow> int" where
  "attempt_fp R hash n start_x start_y i =
     (case spec_attempt R n start_x start_y i of
        Inr (b, s, g) \<Rightarrow> get_path_hash hash s
      | Inl e \<Rightarrow> 0)"

text \<open>Attempt \<open>i\<close> is a novel success: it succeeds, and its fingerprint is not the fingerprint
  left by any of the attempts \<open>0..i-1\<close>.\<close>

definition novel_success ::
  "'g rng \<Rightarrow> (string \<Rightarrow> int) \<Rightarrow> int \<Rightarrow> int \<Rightarrow> int \<Rightarrow> int \<Rightarrow> bool" where
  "novel_success R hash n start_x start_y i =
     (case spec_attempt R n start_x start_y i of
        Inr (b, s, g) \<Rightarrow>
          b \<and> get_path_hash hash s \<notin> attempt_fp R hash n start_x start_y ` set [0..i - 1]
      | Inl e \<Rightarrow> False)"

subsection \<open>Concrete generators, hashes and runs\<close>

text \<open>A generator that returns 0.0 and counts its draws; a module \<open>random\<close> whose state is
  the seed, whose \<open>shuffle\<close> swaps the elements at 3 and 4 for an even seed and whose
  \<open>random\<close> returns 0.0; a hash that sends every string to 0 and one that sends it to its
  length; and the state and records of the run of two attempts on the \<open>5 \<times> 5\<close> board
  from \<open>(1, 1)\<close> with that module.\<close>

definition count_rnd :: "nat \<Rightarrow> rat \<times> nat" where
  "count_rnd g = (0, g + 1)"

definition demo_rng :: "int rng" where
  "demo_rng =
     \<lparr>seed_rng = (\<lambda>seed. seed),
      shuffle_rng = (\<lambda>g xs. (if even g then xs[3 := xs ! 4, 4 := xs ! 3] else xs, g)),
      random_rng = (\<lambda>g. (0, g))\<rparr>"

definition const_hash :: "string \<Rightarrow> int" where
  "const_hash str = 0"

definition length_hash :: "string \<Rightarrow> int" where
  "length_hash str = int (length str)"

definition demo_state :: knights_tour where
  "demo_state =
     \<lparr>size_kt = 5,
      board = [[22, 15, 6, 1, 20], [5, 0, 21, 14, 7], [16, 23, 10, 19, 2],
               [11, 4, 17, 8, 13], [24, 9, 12, 3, 18]],
      path = [(1, 1), (0, 3), (2, 4), (4, 3), (3, 1), (1, 0), (0, 2), (1, 4),
              (3, 3), (4, 1), (2, 2), (3, 0), (4, 2), (3, 4), (1, 3), (0, 1),
              (2, 0), (3, 2), (4, 4), (2, 3), (0, 4), (1, 2), (0, 0), (2, 1),
              (4, 0)]\<rparr>"

definition demo_stats :: "attempt_info list" where
  "demo_stats =
     [\<lparr>info_attempt = 1, info_variation_type = 0, info_random_seed = 5000,
       info_move_preferences = [0, 1, 2, 4, 3, 5, 6, 7],
       info_start_position = (1, 1), info_successful = False,
       info_path_length = 19\<rparr>,
      \<lparr>info_attempt = 2, info_variation_type = 1, info_random_seed = 5001,
       info_move_preferences = [0, 1, 2, 3, 4, 5, 6, 7],
       info_start_position = (1, 1), info_successful = True,
       info_path_length = 25\<rparr>]"

subsection \<open>The step of a Warnsdorff attempt, in the words of the specification\<close>

text \<open>The three strategies and their scores: Random \<open>(degree + tieBreak)\<close>, CenterBias
  \<open>(degree, distance to the center + tieBreak)\<close>, CornerBias \<open>(degree, - (least distance
  to a corner) + tieBreak)\<close>, with Manhattan distances and the center
  \<open>(n div 2, n div 2)\<close>.\<close>

datatype strategy = Random | CenterBias | CornerBias







text \<open>The next \<open>k\<close> values of the generator and its state after them; the candidates with
  their scores, the \<open>i\<close>-th candidate taking the \<open>i\<close>-th value times 0.1 as tie-break.\<close>

fun draws :: "('g \<Rightarrow> rat \<times> 'g) \<Rightarrow> 'g \<Rightarrow> nat \<Rightarrow> rat list" where
  "draws rnd g 0 = []"
| "draws rnd g (Suc k) = fst (rnd g) # draws rnd (snd (rnd g)) k"



text \<open>The scoring method that the head of \<open>_solve_with_warnsdorff_variation\<close> selects.\<close>

definition scoring_of :: "int \<Rightarrow> scoring" where
  "scoring_of variation =
     (if variation = 1 then score_center
      else if variation = 2 then score_corners
      else score_random)"

subsection \<open>Equal random streams\<close>

text \<open>Two generators, started in states related by \<open>rel\<close>, return the same values for ever;
  the outcome of an attempt is its exception, or its success flag and object state.\<close>

definition same_stream ::
  "('g \<Rightarrow> 'h \<Rightarrow> bool) \<Rightarrow> ('g \<Rightarrow> rat \<times> 'g) \<Rightarrow> ('h \<Rightarrow> rat \<times> 'h) \<Rightarrow> bool" where
  "same_stream rel rnd rnd' =
     (\<forall>g h. rel g h \<longrightarrow> fst (rnd g) = fst (rnd' h) \<and> rel (snd (rnd g)) (snd (rnd' h)))"

definition outcome :: "error + (bool \<times> knights_tour \<times> 'g) \<Rightarrow> error + (bool \<times> knights_tour)" where
  "outcome r = map_sum id (\<lambda>t. (fst t, fst (snd t))) r"

section \<open>Lemmas\<close>

lemma wf_empty_board: "wf_board n (empty_board n)"
  by (simp add: wf_board_def empty_board_def)

lemma board_at_empty: "in_board n (x, y) \<Longrightarrow> board_at (empty_board n) x y = - 1"
  by (simp add: in_board_def board_at_def empty_board_def)

lemma wf_board_set: "wf_board n b \<Longrightarrow> wf_board n (board_set b x y v)"
proof (cases "nat x < length b")
  case True
  assume "wf_board n b"
  with True show ?thesis
    unfolding wf_board_def board_set_def
    by (auto dest!: set_update_subset_insert [THEN subsetD])
next
  case False
  then have "length b \<le> nat x" by simp
  then have "board_set b x y v = b" unfolding board_set_def by (rule list_update_beyond)
  moreover assume "wf_board n b"
  ultimately show ?thesis by simp
qed

lemma board_at_set:
  assumes "wf_board n b" "in_board n (x, y)" "in_board n (x', y')"
  shows "board_at (board_set b x y v) x' y' = (if x' = x \<and> y' = y then v else board_at b x' y')"
proof -
  have lx: "nat x < length b" "nat x' < length b"
    using assms by (auto simp: wf_board_def in_board_def)
  have ly: "nat y < length (b ! nat x)" "nat y' < length (b ! nat x')"
    using assms lx by (auto simp: wf_board_def in_board_def)
  have e: "(nat x' = nat x) = (x' = x)" "(nat y' = nat y) = (y' = y)"
    using assms by (auto simp: in_board_def)
  show ?thesis
    unfolding board_at_def board_set_def using lx ly e
    by (auto simp: nth_list_update)
qed

lemma board_store_in_board:
  assumes "wf_board n b" "in_board n (x, y)"
  shows "board_store b x y v = Inr (board_set b x y v)"
proof -
  have lx: "nat x < length b" "0 \<le> x" "x < int (length b)"
    using assms by (auto simp: wf_board_def in_board_def)
  have ly: "0 \<le> y" "y < int (length (b ! nat x))"
    using assms lx by (auto simp: wf_board_def in_board_def)
  show ?thesis
    using lx ly by (simp add: board_store_def py_index_def board_set_def)
qed

lemma is_valid_move_iff:
  "board_inv s \<Longrightarrow>
   is_valid_move s x y = (in_board (size_kt s) (x, y) \<and> (x, y) \<notin> set (path s))"
  unfolding is_valid_move_def board_inv_def in_board_def
  by (auto simp: in_set_conv_nth)

lemma place_move_inv:
  assumes inv: "board_inv s" and v: "is_valid_move s x y" and k: "k = int (length (path s))"
  shows "board_inv (place_move s x y k)"
proof -
  let ?n = "size_kt s"
  from inv v have ib: "in_board ?n (x, y)" and fresh: "(x, y) \<notin> set (path s)"
    by (simp_all add: is_valid_move_iff)
  from inv have wf: "wf_board ?n (board s)" and inb: "\<forall>p \<in> set (path s). in_board ?n p"
    and d: "distinct (path s)"
    and ord: "\<forall>j < length (path s). board_at (board s) (fst (path s ! j)) (snd (path s ! j)) = int j"
    and un: "\<forall>x y. in_board ?n (x, y) \<longrightarrow> (x, y) \<notin> set (path s) \<longrightarrow> board_at (board s) x y = - 1"
    by (simp_all add: board_inv_def)
  have at: "\<And>x' y'. in_board ?n (x', y') \<Longrightarrow>
      board_at (board_set (board s) x y k) x' y' = (if x' = x \<and> y' = y then k else board_at (board s) x' y')"
    using board_at_set [OF wf ib] by simp
  have 1: "wf_board ?n (board_set (board s) x y k)" using wf by (rule wf_board_set)
  have 2: "\<forall>p \<in> set (path s @ [(x, y)]). in_board ?n p" using inb ib by auto
  have 3: "distinct (path s @ [(x, y)])" using d fresh by simp
  have 4: "\<forall>j < length (path s @ [(x, y)]).
      board_at (board_set (board s) x y k) (fst ((path s @ [(x, y)]) ! j)) (snd ((path s @ [(x, y)]) ! j)) = int j"
  proof (intro allI impI)
    fix j assume j: "j < length (path s @ [(x, y)])"
    show "board_at (board_set (board s) x y k) (fst ((path s @ [(x, y)]) ! j)) (snd ((path s @ [(x, y)]) ! j)) = int j"
    proof (cases "j < length (path s)")
      case True
      then have m: "path s ! j \<in> set (path s)" by simp
      then have "in_board ?n (fst (path s ! j), snd (path s ! j))" using inb by simp
      moreover have "\<not> (fst (path s ! j) = x \<and> snd (path s ! j) = y)"
        using m fresh by (metis prod.collapse)
      moreover have "board_at (board s) (fst (path s ! j)) (snd (path s ! j)) = int j"
        using ord True by simp
      ultimately have "board_at (board_set (board s) x y k) (fst (path s ! j)) (snd (path s ! j)) = int j"
        by (auto simp: at)
      then show ?thesis using True by (simp add: nth_append)
    next
      case False
      with j have "j = length (path s)" by simp
      moreover have "board_at (board_set (board s) x y k) x y = k" using at [OF ib] by simp
      ultimately show ?thesis using k by simp
    qed
  qed
  have 5: "\<forall>x' y'. in_board ?n (x', y') \<longrightarrow> (x', y') \<notin> set (path s @ [(x, y)])
               \<longrightarrow> board_at (board_set (board s) x y k) x' y' = - 1"
    using un by (auto simp: at)
  show ?thesis
    unfolding board_inv_def place_move_def using 1 2 3 4 5 by simp
qed

lemma undo_move_inv:
  assumes inv: "board_inv s" and ne: "path s \<noteq> []"
  shows "board_inv (undo_move s)"
proof -
  let ?n = "size_kt s"
  obtain x y where l: "last (path s) = (x, y)" by (cases "last (path s)")
  obtain ps where ps: "path s = ps @ [(x, y)]"
    using ne l by (metis append_butlast_last_id)
  from inv have wf: "wf_board ?n (board s)" and inb: "\<forall>p \<in> set (path s). in_board ?n p"
    and d: "distinct (path s)"
    and ord: "\<forall>j < length (path s). board_at (board s) (fst (path s ! j)) (snd (path s ! j)) = int j"
    and un: "\<forall>x y. in_board ?n (x, y) \<longrightarrow> (x, y) \<notin> set (path s) \<longrightarrow> board_at (board s) x y = - 1"
    by (simp_all add: board_inv_def)
  have ib: "in_board ?n (x, y)" using inb ps by simp
  have fresh: "(x, y) \<notin> set ps" using d ps by simp
  have at: "\<And>x' y'. in_board ?n (x', y') \<Longrightarrow>
      board_at (board_set (board s) x y (- 1)) x' y' = (if x' = x \<and> y' = y then - 1 else board_at (board s) x' y')"
    using board_at_set [OF wf ib] by simp
  have 1: "wf_board ?n (board_set (board s) x y (- 1))" using wf by (rule wf_board_set)
  have 2: "\<forall>p \<in> set ps. in_board ?n p" using inb ps by simp
  have 3: "distinct ps" using d ps by simp
  have 4: "\<forall>j < length ps.
      board_at (board_set (board s) x y (- 1)) (fst (ps ! j)) (snd (ps ! j)) = int j"
  proof (intro allI impI)
    fix j assume j: "j < length ps"
    then have m: "ps ! j \<in> set ps" by simp
    then have "in_board ?n (fst (ps ! j), snd (ps ! j))" using 2 by simp
    moreover have "\<not> (fst (ps ! j) = x \<and> snd (ps ! j) = y)"
      using m fresh by (metis prod.collapse)
    moreover have "board_at (board s) (fst (ps ! j)) (snd (ps ! j)) = int j"
      using ord j ps by (auto simp: nth_append dest: spec [where x = j])
    ultimately show "board_at (board_set (board s) x y (- 1)) (fst (ps ! j)) (snd (ps ! j)) = int j"
      by (auto simp: at)
  qed
  have 5: "\<forall>x' y'. in_board ?n (x', y') \<longrightarrow> (x', y') \<notin> set ps
               \<longrightarrow> board_at (board_set (board s) x y (- 1)) x' y' = - 1"
    using un ps by (auto simp: at)
  show ?thesis
    unfolding board_inv_def undo_move_def using 1 2 3 4 5 l ps by simp
qed

lemma start_inv:
  assumes "in_board n (x, y)"
  shows "board_inv \<lparr>size_kt = n, board = board_set (empty_board n) x y 0, path = [(x, y)]\<rparr>"
  unfolding board_inv_def using assms
  by (auto simp: wf_board_set wf_empty_board board_at_set [OF wf_empty_board] board_at_empty)

lemma path_place_move [simp]: "path (place_move s x y k) = path s @ [(x, y)]"
  by (simp add: place_move_def)

lemma size_place_move [simp]: "size_kt (place_move s x y k) = size_kt s"
  by (simp add: place_move_def)

lemma path_undo_move [simp]: "path (undo_move s) = butlast (path s)"
  by (simp add: undo_move_def split: prod.splits)

lemma size_undo_move [simp]: "size_kt (undo_move s) = size_kt s"
  by (simp add: undo_move_def split: prod.splits)

lemma next_valid_Some:
  "next_valid s x y i = Some j \<Longrightarrow>
     i \<le> j \<and> j < 8 \<and> is_valid_move s (x + moves_x ! j) (y + moves_y ! j) \<and>
     (\<forall>k. i \<le> k \<and> k < j \<longrightarrow> \<not> is_valid_move s (x + moves_x ! k) (y + moves_y ! k))"
proof (induction s x y i rule: next_valid.induct)
  case (1 s x y i)
  show ?case
  proof (cases "i < 8 \<and> \<not> is_valid_move s (x + moves_x ! i) (y + moves_y ! i)")
    case True
    then have "next_valid s x y (i + 1) = Some j"
      using "1.prems" by (simp add: next_valid.simps [of s x y i])
    with True "1.IH" have ih: "i + 1 \<le> j \<and> j < 8 \<and> is_valid_move s (x + moves_x ! j) (y + moves_y ! j) \<and>
     (\<forall>k. i + 1 \<le> k \<and> k < j \<longrightarrow> \<not> is_valid_move s (x + moves_x ! k) (y + moves_y ! k))"
      by simp
    have "\<And>k. i \<le> k \<Longrightarrow> k < j \<Longrightarrow> \<not> is_valid_move s (x + moves_x ! k) (y + moves_y ! k)"
    proof -
      fix k assume "i \<le> k" "k < j"
      then consider "k = i" | "i + 1 \<le> k" by linarith
      then show "\<not> is_valid_move s (x + moves_x ! k) (y + moves_y ! k)"
        using True ih \<open>k < j\<close> by cases auto
    qed
    with ih show ?thesis by auto
  next
    case False
    then show ?thesis using "1.prems"
      by (auto simp: next_valid.simps [of s x y i] split: if_splits)
  qed
qed

lemma next_valid_None:
  "next_valid s x y i = None \<Longrightarrow>
     (\<forall>k. i \<le> k \<and> k < 8 \<longrightarrow> \<not> is_valid_move s (x + moves_x ! k) (y + moves_y ! k))"
proof (induction s x y i rule: next_valid.induct)
  case (1 s x y i)
  show ?case
  proof (cases "i < 8")
    case True
    with "1.prems" have nv: "\<not> is_valid_move s (x + moves_x ! i) (y + moves_y ! i)"
      and rec: "next_valid s x y (i + 1) = None"
      by (auto simp: next_valid.simps [of s x y i] split: if_splits)
    from "1.IH" [OF True nv rec]
    have ih: "\<forall>k. i + 1 \<le> k \<and> k < 8 \<longrightarrow> \<not> is_valid_move s (x + moves_x ! k) (y + moves_y ! k)" .
    show ?thesis
    proof (intro allI impI)
      fix k assume k: "i \<le> k \<and> k < 8"
      then consider "k = i" | "i + 1 \<le> k" by linarith
      then show "\<not> is_valid_move s (x + moves_x ! k) (y + moves_y ! k)"
        using nv ih k by cases auto
    qed
  next
    case False
    then show ?thesis by auto
  qed
qed

lemma frames_push:
  assumes f: "frames_inv s (pre @ [(mc, cx, cy, i)])"
    and ne: "mc \<noteq> size_kt s * size_kt s" and j: "j < 8"
  shows "frames_inv (place_move s (cx + moves_x ! j) (cy + moves_y ! j) mc)
           (pre @ [(mc, cx, cy, j + 1)] @ [(mc + 1, cx + moves_x ! j, cy + moves_y ! j, 0)])"
proof -
  let ?st = "pre @ [(mc, cx, cy, i)]"
  let ?h = "length pre"
  let ?np = "(cx + moves_x ! j, cy + moves_y ! j)"
  let ?st' = "pre @ [(mc, cx, cy, j + 1)] @ [(mc + 1, cx + moves_x ! j, cy + moves_y ! j, 0)]"
  from f have len: "length (path s) = ?h + 1"
    and bound: "int (?h + 1) \<le> size_kt s * size_kt s"
    and ok: "\<And>d. d < ?h + 1 \<Longrightarrow> frame_ok (path s) ?st d"
    by (simp_all add: frames_inv_def)
  from ok [of ?h] have top: "mc = int ?h + 1" "(cx, cy) = path s ! ?h"
    by (simp_all add: frame_ok_def)
  have b': "int (length ?st') \<le> size_kt s * size_kt s"
    using bound ne top by simp
  have "frame_ok (path s @ [?np]) ?st' d" if d: "d < ?h + 2" for d
  proof -
    consider "d < ?h" | "d = ?h" | "d = ?h + 1" using d by linarith
    then show ?thesis
    proof cases
      case 1
      then have "frame_ok (path s) ?st d" using ok by simp
      then show ?thesis using 1 len
        by (auto simp: frame_ok_def nth_append split: prod.splits)
    next
      case 2
      then show ?thesis using top len j
        by (simp add: frame_ok_def nth_append)
    next
      case 3
      then show ?thesis using top len
        by (simp add: frame_ok_def nth_append)
    qed
  qed
  then show ?thesis
    unfolding frames_inv_def using len b' by simp
qed

lemma frames_pop:
  assumes f: "frames_inv s (pre @ [fr])" and ne: "pre \<noteq> []"
  shows "frames_inv (undo_move s) pre"
proof -
  let ?h = "length pre"
  from f have len: "length (path s) = ?h + 1"
    and bound: "int (?h + 1) \<le> size_kt s * size_kt s"
    and ok: "\<And>d. d < ?h + 1 \<Longrightarrow> frame_ok (path s) (pre @ [fr]) d"
    by (simp_all add: frames_inv_def)
  have "frame_ok (butlast (path s)) pre d" if d: "d < ?h" for d
  proof -
    have "frame_ok (path s) (pre @ [fr]) d" using ok d by simp
    then show ?thesis using d len
      by (auto simp: frame_ok_def nth_append nth_butlast split: prod.splits)
  qed
  then show ?thesis
    unfolding frames_inv_def using len bound by simp
qed

lemma knight_step_iff:
  "knight_step p q = (\<exists>k < 8. q = (fst p + moves_x ! k, snd p + moves_y ! k))"
proof -
  have l: "length moves_x = 8" "length moves_y = 8" by (simp_all add: moves_x_def moves_y_def)
  have "knight_step p q = (\<exists>k < 8. moves_x ! k = fst q - fst p \<and> moves_y ! k = snd q - snd p)"
    unfolding knight_step_def knight_offsets_def in_set_zip using l by auto
  also have "\<dots> = (\<exists>k < 8. q = (fst p + moves_x ! k, snd p + moves_y ! k))"
    by (cases q) auto
  finally show ?thesis .
qed

lemma knight_path_nth:
  "knight_path ps = (\<forall>i. i + 1 < length ps \<longrightarrow> knight_step (ps ! i) (ps ! (i + 1)))"
proof (induction ps rule: knight_path.induct)
  case 1
  show ?case by simp
next
  case (2 p)
  show ?case by simp
next
  case (3 p q ps)
  show ?case
  proof
    assume a: "knight_path (p # q # ps)"
    show "\<forall>i. i + 1 < length (p # q # ps) \<longrightarrow> knight_step ((p # q # ps) ! i) ((p # q # ps) ! (i + 1))"
    proof (intro allI impI)
      fix i assume i: "i + 1 < length (p # q # ps)"
      show "knight_step ((p # q # ps) ! i) ((p # q # ps) ! (i + 1))"
      proof (cases i)
        case 0
        then show ?thesis using a by simp
      next
        case (Suc i')
        then have "i' + 1 < length (q # ps)" using i by simp
        then have "knight_step ((q # ps) ! i') ((q # ps) ! (i' + 1))" using a 3 by simp
        then show ?thesis using Suc by simp
      qed
    qed
  next
    assume a: "\<forall>i. i + 1 < length (p # q # ps) \<longrightarrow> knight_step ((p # q # ps) ! i) ((p # q # ps) ! (i + 1))"
    from a [rule_format, of 0] have 1: "knight_step p q" by simp
    have "\<forall>i. i + 1 < length (q # ps) \<longrightarrow> knight_step ((q # ps) ! i) ((q # ps) ! (i + 1))"
    proof (intro allI impI)
      fix i assume "i + 1 < length (q # ps)"
      then show "knight_step ((q # ps) ! i) ((q # ps) ! (i + 1))"
        using a [rule_format, of "Suc i"] by simp
    qed
    with 3 1 show "knight_path (p # q # ps)" by simp
  qed
qed

lemma weight_nil: "weight m [] + 1 = 10 ^ m"
  by (induction m) simp_all

lemma weight_bound: "\<forall>c \<in> set cs. c \<le> 8 \<Longrightarrow> weight m cs + 1 \<le> 10 ^ m"
proof (induction m arbitrary: cs)
  case 0
  show ?case by simp
next
  case (Suc m)
  show ?case
  proof (cases cs)
    case Nil
    then show ?thesis using weight_nil [of "Suc m"] by simp
  next
    case (Cons c cs')
    then have c: "c \<le> 8" and r: "weight m cs' + 1 \<le> 10 ^ m"
      using Suc.prems Suc.IH [of cs'] by simp_all
    have h: "c * 10 ^ m \<le> 8 * 10 ^ m" using c by simp
    have g: "weight (Suc m) (c # cs') = c * 10 ^ m + weight m cs'" by simp
    have p: "(10::nat) ^ Suc m = 10 * 10 ^ m" by simp
    show ?thesis unfolding Cons g p using r h by linarith
  qed
qed

lemma weight_push:
  "length pre < m \<Longrightarrow> c \<le> j \<Longrightarrow> weight m (pre @ [c]) < weight m (pre @ [j + 1, 0])"
proof (induction pre arbitrary: m)
  case Nil
  then obtain m' where m: "m = Suc m'" by (cases m) auto
  have h: "c * 10 ^ m' \<le> j * 10 ^ m'" using Nil.prems by simp
  have g: "weight (Suc m') [c] = c * 10 ^ m' + weight m' []" by simp
  have g': "weight (Suc m') [j + 1, 0] = (j * 10 ^ m' + 10 ^ m') + weight m' [0]" by simp
  show ?case unfolding m append_Nil g g' using h weight_nil [of m'] by linarith
next
  case (Cons p pre)
  then obtain m' where m: "m = Suc m'" by (cases m) auto
  with Cons.prems have "length pre < m'" by simp
  from Cons.IH [OF this Cons.prems(2)] show ?case using m by simp
qed

lemma weight_pop:
  "length pre < m \<Longrightarrow> c \<le> 8 \<Longrightarrow> weight m (pre @ [c]) < weight m pre"
proof (induction pre arbitrary: m)
  case Nil
  then obtain m' where m: "m = Suc m'" by (cases m) auto
  have h: "c * 10 ^ m' \<le> 8 * 10 ^ m'" using Nil.prems by simp
  have g: "weight (Suc m') [c] = c * 10 ^ m' + weight m' []" by simp
  have g': "weight (Suc m') [] = 9 * 10 ^ m' + weight m' []" by simp
  show ?case unfolding m append_Nil g g' using h weight_nil [of m'] by linarith
next
  case (Cons p pre)
  then obtain m' where m: "m = Suc m'" by (cases m) auto
  with Cons.prems have "length pre < m'" by simp
  from Cons.IH [OF this Cons.prems(2)] show ?case using m by simp
qed

lemma pendingI:
  "d < length stack \<Longrightarrow> take (d + 1) t = take (d + 1) (path s) \<Longrightarrow>
   cursor (stack ! d) \<le> k \<Longrightarrow> k < 8 \<Longrightarrow>
   t ! (d + 1) = (fst (path s ! d) + moves_x ! k, snd (path s ! d) + moves_y ! k) \<Longrightarrow>
   pending s stack t"
  unfolding pending_def by blast

lemma tour_continues_valid:
  assumes inv: "board_inv s" and n: "size_kt s = n" and t: "is_tour n start t"
    and len: "length (path s) = h + 1" and lt: "int (h + 1) < n * n"
    and pre: "take (h + 1) t = path s" and nxt: "t ! (h + 1) = (x', y')"
  shows "is_valid_move s x' y'"
proof -
  from t have lt': "h + 1 < length t" using lt by (simp add: is_tour_def)
  then have m: "t ! (h + 1) \<in> set t" by simp
  then have ib: "in_board n (x', y')" using t nxt by (auto simp: is_tour_def)
  from t have d: "distinct t" by (simp add: is_tour_def)
  have "t ! (h + 1) \<notin> set (take (h + 1) t)"
  proof
    assume "t ! (h + 1) \<in> set (take (h + 1) t)"
    then obtain i where i: "i < h + 1" "take (h + 1) t ! i = t ! (h + 1)"
      using lt' by (auto simp: in_set_conv_nth)
    then have "t ! i = t ! (h + 1)" by simp
    with d i lt' show False by (auto simp: distinct_conv_nth)
  qed
  then have "(x', y') \<notin> set (path s)" using pre nxt by simp
  with ib show ?thesis using inv n by (simp add: is_valid_move_iff)
qed

lemma pending_push:
  assumes inv: "board_inv s" and n: "size_kt s = n"
    and f: "frames_inv s (pre @ [(mc, cx, cy, i)])"
    and ne: "mc \<noteq> n * n"
    and nv: "next_valid s cx cy i = Some j"
    and t: "is_tour n start t"
    and p: "pending s (pre @ [(mc, cx, cy, i)]) t"
  shows "pending (place_move s (cx + moves_x ! j) (cy + moves_y ! j) mc)
           (pre @ [(mc, cx, cy, j + 1)] @ [(mc + 1, cx + moves_x ! j, cy + moves_y ! j, 0)]) t"
proof -
  let ?h = "length pre"
  let ?st = "pre @ [(mc, cx, cy, i)]"
  let ?np = "(cx + moves_x ! j, cy + moves_y ! j)"
  let ?s' = "place_move s (cx + moves_x ! j) (cy + moves_y ! j) mc"
  let ?st' = "pre @ [(mc, cx, cy, j + 1)] @ [(mc + 1, cx + moves_x ! j, cy + moves_y ! j, 0)]"
  from f have len: "length (path s) = ?h + 1"
    and bound: "int (?h + 1) \<le> n * n"
    and ok: "\<And>d. d < ?h + 1 \<Longrightarrow> frame_ok (path s) ?st d"
    using n by (simp_all add: frames_inv_def)
  from ok [of ?h] have top: "mc = int ?h + 1" "path s ! ?h = (cx, cy)"
    by (simp_all add: frame_ok_def)
  have lt: "int (?h + 1) < n * n" using bound ne top by simp
  from t have lent: "length t = nat (n * n)" by (simp add: is_tour_def)
  from nv have j: "i \<le> j" "j < 8"
    and jmin: "\<And>k. i \<le> k \<Longrightarrow> k < j \<Longrightarrow> \<not> is_valid_move s (cx + moves_x ! k) (cy + moves_y ! k)"
    using next_valid_Some [OF nv] by auto
  from p consider (A) "t = path s"
    | (B) d k where "d < ?h + 1" "take (d + 1) t = take (d + 1) (path s)"
        "cursor (?st ! d) \<le> k" "k < 8"
        "t ! (d + 1) = (fst (path s ! d) + moves_x ! k, snd (path s ! d) + moves_y ! k)"
    unfolding pending_def by auto
  then show ?thesis
  proof cases
    case A
    then have "length (path s) = nat (n * n)" using lent by simp
    with len lt show ?thesis by simp
  next
    case (B d k)
    show ?thesis
    proof (cases "d < ?h")
      case True
      have a: "take (d + 1) t = take (d + 1) (path ?s')" using B(2) True len by simp
      have b: "cursor (?st' ! d) \<le> k" using B(3) True by (simp add: nth_append)
      have "path ?s' ! d = path s ! d" using True len by (simp add: nth_append)
      then have c: "t ! (d + 1) = (fst (path ?s' ! d) + moves_x ! k, snd (path ?s' ! d) + moves_y ! k)"
        using B(5) by simp
      have e: "d < length ?st'" using True by simp
      show ?thesis by (rule pendingI [OF e a b B(4) c])
    next
      case False
      with B(1) have dh: "d = ?h" by simp
      have pre: "take (?h + 1) t = path s" using B(2) dh len by simp
      have ik: "i \<le> k" using B(3) dh by (simp add: cursor_def)
      have nxt: "t ! (?h + 1) = (cx + moves_x ! k, cy + moves_y ! k)"
        using B(5) dh top by simp
      have "is_valid_move s (cx + moves_x ! k) (cy + moves_y ! k)"
        using tour_continues_valid [OF inv n t len lt pre nxt] .
      with jmin ik have jk: "j \<le> k" by (meson not_less)
      show ?thesis
      proof (cases "k = j")
        case False
        with jk have "j + 1 \<le> k" by simp
        then have b: "cursor (?st' ! ?h) \<le> k" by (simp add: cursor_def nth_append)
        have a: "take (?h + 1) t = take (?h + 1) (path ?s')" using pre len by simp
        have "path ?s' ! ?h = (cx, cy)" using top len by (simp add: nth_append)
        then have c: "t ! (?h + 1) = (fst (path ?s' ! ?h) + moves_x ! k, snd (path ?s' ! ?h) + moves_y ! k)"
          using nxt by simp
        have e: "?h < length ?st'" by simp
        show ?thesis by (rule pendingI [OF e a b B(4) c])
      next
        case True
        have lt': "?h + 1 < length t" using lt lent by simp
        have "take (Suc (?h + 1)) t = take (?h + 1) t @ [t ! (?h + 1)]"
          using lt' by (rule take_Suc_conv_app_nth)
        then have tk: "take (?h + 2) t = path ?s'" using pre nxt True by simp
        show ?thesis
        proof (cases "length t = ?h + 2")
          case True
          then have "t = path ?s'" using tk by simp
          then show ?thesis unfolding pending_def by simp
        next
          case False
          with lt' have l2: "(?h + 1) + 1 < length t" by simp
          from t have "knight_path t" by (simp add: is_tour_def)
          then have "knight_step (t ! (?h + 1)) (t ! ((?h + 1) + 1))"
            using l2 knight_path_nth by blast
          then obtain k' where k': "k' < 8"
            "t ! ((?h + 1) + 1) = (fst (t ! (?h + 1)) + moves_x ! k', snd (t ! (?h + 1)) + moves_y ! k')"
            unfolding knight_step_iff by blast
          have pp: "path ?s' ! (?h + 1) = t ! (?h + 1)"
            using nxt True len by (simp add: nth_append)
          have a: "take ((?h + 1) + 1) t = take ((?h + 1) + 1) (path ?s')"
            using tk len by simp
          have b: "cursor (?st' ! (?h + 1)) \<le> k'" by (simp add: cursor_def nth_append)
          have e: "?h + 1 < length ?st'" by simp
          have c: "t ! ((?h + 1) + 1) = (fst (path ?s' ! (?h + 1)) + moves_x ! k', snd (path ?s' ! (?h + 1)) + moves_y ! k')"
            using k'(2) pp by simp
          show ?thesis by (rule pendingI [OF e a b k'(1) c])
        qed
      qed
    qed
  qed
qed

lemma pending_pop:
  assumes inv: "board_inv s" and n: "size_kt s = n"
    and f: "frames_inv s (pre @ [(mc, cx, cy, i)])"
    and ne: "mc \<noteq> n * n"
    and nv: "next_valid s cx cy i = None"
    and t: "is_tour n start t"
    and p: "pending s (pre @ [(mc, cx, cy, i)]) t"
  shows "pending (if pre \<noteq> [] then undo_move s else s) pre t"
proof -
  let ?h = "length pre"
  let ?st = "pre @ [(mc, cx, cy, i)]"
  let ?s' = "if pre \<noteq> [] then undo_move s else s"
  from f have len: "length (path s) = ?h + 1"
    and bound: "int (?h + 1) \<le> n * n"
    and ok: "\<And>d. d < ?h + 1 \<Longrightarrow> frame_ok (path s) ?st d"
    using n by (simp_all add: frames_inv_def)
  from ok [of ?h] have top: "mc = int ?h + 1" "path s ! ?h = (cx, cy)"
    by (simp_all add: frame_ok_def)
  have lt: "int (?h + 1) < n * n" using bound ne top by simp
  from t have lent: "length t = nat (n * n)" by (simp add: is_tour_def)
  from p consider (A) "t = path s"
    | (B) d k where "d < ?h + 1" "take (d + 1) t = take (d + 1) (path s)"
        "cursor (?st ! d) \<le> k" "k < 8"
        "t ! (d + 1) = (fst (path s ! d) + moves_x ! k, snd (path s ! d) + moves_y ! k)"
    unfolding pending_def by auto
  then show ?thesis
  proof cases
    case A
    then have "length (path s) = nat (n * n)" using lent by simp
    with len lt show ?thesis by simp
  next
    case (B d k)
    show ?thesis
    proof (cases "d < ?h")
      case True
      then have ne': "pre \<noteq> []" by auto
      have a: "take (d + 1) t = take (d + 1) (path ?s')"
        using B(2) True len ne' by (simp add: take_butlast)
      have b: "cursor (pre ! d) \<le> k" using B(3) True by (simp add: nth_append)
      have "path ?s' ! d = path s ! d" using True len ne' by (simp add: nth_butlast)
      then have c: "t ! (d + 1) = (fst (path ?s' ! d) + moves_x ! k, snd (path ?s' ! d) + moves_y ! k)"
        using B(5) by simp
      show ?thesis by (rule pendingI [OF True a b B(4) c])
    next
      case False
      with B(1) have dh: "d = ?h" by simp
      have pre: "take (?h + 1) t = path s" using B(2) dh len by simp
      have ik: "i \<le> k" using B(3) dh by (simp add: cursor_def)
      have nxt: "t ! (?h + 1) = (cx + moves_x ! k, cy + moves_y ! k)"
        using B(5) dh top by simp
      have "is_valid_move s (cx + moves_x ! k) (cy + moves_y ! k)"
        using tour_continues_valid [OF inv n t len lt pre nxt] .
      with next_valid_None [OF nv] ik B(4) show ?thesis by blast
    qed
  qed
qed

lemma frames_knight_path:
  assumes f: "frames_inv s stack"
  shows "knight_path (path s)"
  unfolding knight_path_nth
proof (intro allI impI)
  fix d assume d: "d + 1 < length (path s)"
  from f have len: "length stack = length (path s)"
    and ok: "\<And>d. d < length stack \<Longrightarrow> frame_ok (path s) stack d"
    by (simp_all add: frames_inv_def)
  obtain mc x y c where fr: "stack ! d = (mc, x, y, c)" by (cases "stack ! d") auto
  from ok [of d] d len fr have "(x, y) = path s ! d" "c \<le> 8" "1 \<le> c"
    "path s ! (d + 1) = (x + moves_x ! (c - 1), y + moves_y ! (c - 1))"
    by (simp_all add: frame_ok_def)
  then have "c - 1 < 8"
    "path s ! (d + 1) = (fst (path s ! d) + moves_x ! (c - 1), snd (path s ! d) + moves_y ! (c - 1))"
    by (auto simp: fst_def snd_def split: prod.splits)
  then show "knight_step (path s ! d) (path s ! (d + 1))"
    unfolding knight_step_iff by blast
qed

lemma frames_cursor_le:
  assumes f: "frames_inv s stack"
  shows "\<forall>c \<in> set (map cursor stack). c \<le> 8"
proof
  fix c assume "c \<in> set (map cursor stack)"
  then obtain d where d: "d < length stack" "c = cursor (stack ! d)"
    by (auto simp: in_set_conv_nth)
  from f d(1) have "frame_ok (path s) stack d" by (simp add: frames_inv_def)
  then show "c \<le> 8" using d(2) by (auto simp: frame_ok_def cursor_def split: prod.splits)
qed

lemma solve_body_cases:
  assumes inv: "solve_inv n start s stack" and ne: "stack \<noteq> []"
  shows "(solve_body s stack = Return True \<and> int (length (path s)) = n * n) \<or>
         (\<exists>s' stack'. solve_body s stack = Next s' stack' \<and> solve_inv n start s' stack' \<and>
            weight (nat (n * n)) (map cursor stack) < weight (nat (n * n)) (map cursor stack'))"
proof -
  from ne obtain pre mc cx cy i where st: "stack = pre @ [(mc, cx, cy, i)]"
    by (metis rev_exhaust prod_cases4)
  let ?h = "length pre"
  from inv ne have n: "size_kt s = n" and binv: "board_inv s" and pne: "path s \<noteq> []"
    and hd: "hd (path s) = start" and f: "frames_inv s (pre @ [(mc, cx, cy, i)])"
    and pend: "\<And>t. is_tour n start t \<Longrightarrow> pending s (pre @ [(mc, cx, cy, i)]) t"
    unfolding solve_inv_def st by auto
  from f have len: "length (path s) = ?h + 1"
    and bound: "int (?h + 1) \<le> n * n"
    and ok: "\<And>d. d < ?h + 1 \<Longrightarrow> frame_ok (path s) (pre @ [(mc, cx, cy, i)]) d"
    using n by (simp_all add: frames_inv_def)
  from ok [of ?h] have top: "mc = int ?h + 1" "i \<le> 8"
    by (simp_all add: frame_ok_def)
  show ?thesis
  proof (cases "mc = n * n")
    case True
    then have "solve_body s stack = Return True" by (simp add: solve_body_def st n)
    moreover have "int (length (path s)) = n * n" using True top len by simp
    ultimately show ?thesis by simp
  next
    case False
    then have lt: "?h < nat (n * n)" using bound top by linarith
    show ?thesis
    proof (cases "next_valid s cx cy i")
      case (Some j)
      let ?s' = "place_move s (cx + moves_x ! j) (cy + moves_y ! j) mc"
      let ?st' = "pre @ [(mc, cx, cy, j + 1)] @ [(mc + 1, cx + moves_x ! j, cy + moves_y ! j, 0)]"
      from next_valid_Some [OF Some] have j: "i \<le> j" "j < 8"
        "is_valid_move s (cx + moves_x ! j) (cy + moves_y ! j)" by auto
      have body: "solve_body s stack = Next ?s' ?st'"
        using False Some by (simp add: solve_body_def st n Let_def)
      have 1: "board_inv ?s'" using binv j(3) top len by (intro place_move_inv) simp_all
      have 2: "frames_inv ?s' ?st'" using f False j(2) n by (intro frames_push) simp_all
      have 3: "\<And>t. is_tour n start t \<Longrightarrow> pending ?s' ?st' t"
        using pending_push [OF binv n f False Some] pend by blast
      have 4: "hd (path ?s') = start" "path ?s' \<noteq> []" using hd pne by simp_all
      have inv': "solve_inv n start ?s' ?st'"
        unfolding solve_inv_def using 1 2 3 4 n by simp
      have "weight (nat (n * n)) (map cursor pre @ [i]) < weight (nat (n * n)) (map cursor pre @ [j + 1, 0])"
        using lt j(1) by (intro weight_push) simp_all
      then have "weight (nat (n * n)) (map cursor stack) < weight (nat (n * n)) (map cursor ?st')"
        by (simp add: st cursor_def)
      with body inv' show ?thesis by blast
    next
      case None
      let ?s' = "if pre \<noteq> [] then undo_move s else s"
      have body: "solve_body s stack = Next ?s' pre"
        using False None pne by (simp add: solve_body_def st n)
      have 1: "board_inv ?s'" using binv pne by (simp add: undo_move_inv)
      have 2: "pre \<noteq> [] \<longrightarrow> frames_inv ?s' pre" using f frames_pop by auto
      have 3: "\<And>t. is_tour n start t \<Longrightarrow> pending ?s' pre t"
        using pending_pop [OF binv n f False None] pend by blast
      have 4: "hd (path ?s') = start" "path ?s' \<noteq> []"
        using hd pne len by (cases "path s" rule: rev_cases; cases "butlast (path s)"; auto)+
      have inv': "solve_inv n start ?s' pre"
        unfolding solve_inv_def using 1 2 3 4 n by simp
      have "weight (nat (n * n)) (map cursor pre @ [i]) < weight (nat (n * n)) (map cursor pre)"
        using lt top(2) by (intro weight_pop) simp_all
      then have "weight (nat (n * n)) (map cursor stack) < weight (nat (n * n)) (map cursor pre)"
        by (simp add: st cursor_def)
      with body inv' show ?thesis by blast
    qed
  qed
qed

lemma solve_loop_total:
  assumes "solve_inv n start s stack"
  shows "\<exists>b s'. solve_loop s stack = Some (Inr (b, s')) \<and> size_kt s' = n \<and>
           (b \<longrightarrow> board_inv s' \<and> is_tour n start (path s')) \<and>
           (\<not> b \<longrightarrow> (\<forall>t. \<not> is_tour n start t) \<and> board s' = empty_board n \<and> path s' = [])"
  using assms
proof (induction "10 ^ nat (n * n) - weight (nat (n * n)) (map cursor stack)"
         arbitrary: s stack rule: less_induct)
  case less
  note inv = less.prems
  show ?case
  proof (cases "stack = []")
    case True
    have "\<And>t. \<not> is_tour n start t"
      using inv True by (auto simp: solve_inv_def pending_def)
    moreover have "solve_loop s stack =
        Some (Inr (False, s\<lparr>board := empty_board (size_kt s), path := []\<rparr>))"
      using True by (simp add: solve_loop.simps)
    moreover have "size_kt s = n" using inv by (simp add: solve_inv_def)
    ultimately show ?thesis by auto
  next
    case False
    from inv False have f: "frames_inv s stack" by (simp add: solve_inv_def)
    from solve_body_cases [OF inv False] show ?thesis
    proof
      assume r: "solve_body s stack = Return True \<and> int (length (path s)) = n * n"
      then have "solve_loop s stack = Some (Inr (True, s))"
        using False by (simp add: solve_loop.simps)
      moreover have "is_tour n start (path s)"
        using inv r frames_knight_path [OF f]
        by (auto simp: is_tour_def solve_inv_def board_inv_def)
      ultimately show ?thesis using inv by (auto simp: solve_inv_def)
    next
      assume "\<exists>s' stack'. solve_body s stack = Next s' stack' \<and> solve_inv n start s' stack' \<and>
            weight (nat (n * n)) (map cursor stack) < weight (nat (n * n)) (map cursor stack')"
      then obtain s' stack' where b: "solve_body s stack = Next s' stack'"
        and inv': "solve_inv n start s' stack'"
        and w: "weight (nat (n * n)) (map cursor stack) < weight (nat (n * n)) (map cursor stack')"
        by blast
      have "weight (nat (n * n)) (map cursor stack') + 1 \<le> 10 ^ nat (n * n)"
      proof (cases "stack' = []")
        case True
        then show ?thesis using weight_nil [of "nat (n * n)"] by simp
      next
        case False
        with inv' have "frames_inv s' stack'" by (simp add: solve_inv_def)
        from weight_bound [OF frames_cursor_le [OF this]] show ?thesis .
      qed
      with w have "10 ^ nat (n * n) - weight (nat (n * n)) (map cursor stack')
          < 10 ^ nat (n * n) - weight (nat (n * n)) (map cursor stack)" by linarith
      from less.hyps [OF this inv'] have
        "\<exists>b s''. solve_loop s' stack' = Some (Inr (b, s'')) \<and> size_kt s'' = n \<and>
           (b \<longrightarrow> board_inv s'' \<and> is_tour n start (path s'')) \<and>
           (\<not> b \<longrightarrow> (\<forall>t. \<not> is_tour n start t) \<and> board s'' = empty_board n \<and> path s'' = [])" .
      moreover have "solve_loop s stack = solve_loop s' stack'"
        using False b by (simp add: solve_loop.simps [of s stack])
      ultimately show ?thesis by metis
    qed
  qed
qed

lemma solve_init_inv:
  assumes ib: "in_board n (sx, sy)"
  shows "solve_inv n (sx, sy)
           \<lparr>size_kt = n, board = board_set (empty_board n) sx sy 0, path = [(sx, sy)]\<rparr>
           [(1, sx, sy, 0)]"
proof -
  let ?s = "\<lparr>size_kt = n, board = board_set (empty_board n) sx sy 0, path = [(sx, sy)]\<rparr>"
  have n1: "1 \<le> n" using ib by (simp add: in_board_def)
  then have "1 * 1 \<le> n * n" by (intro mult_mono) simp_all
  then have nn: "1 \<le> n * n" by simp
  have 1: "board_inv ?s" using ib by (rule start_inv)
  have 2: "frames_inv ?s [(1, sx, sy, 0)]"
    using nn by (simp add: frames_inv_def frame_ok_def)
  have 3: "pending ?s [(1, sx, sy, 0)] t" if t: "is_tour n (sx, sy) t" for t
  proof (cases "length t = 1")
    case True
    with t have "t = [(sx, sy)]" by (cases t) (auto simp: is_tour_def)
    then show ?thesis by (simp add: pending_def)
  next
    case False
    from t have ne: "t \<noteq> []" and h: "hd t = (sx, sy)" and kp: "knight_path t"
      by (simp_all add: is_tour_def)
    with False have l: "0 + 1 < length t" by (cases t) auto
    from ne h have t0: "t ! 0 = (sx, sy)" by (cases t) auto
    with ne have a: "take (0 + 1) t = take (0 + 1) (path ?s)" by (cases t) auto
    from kp l have "knight_step (t ! 0) (t ! (0 + 1))" using knight_path_nth by blast
    then obtain k where k: "k < 8" "t ! (0 + 1) = (fst (path ?s ! 0) + moves_x ! k, snd (path ?s ! 0) + moves_y ! k)"
      unfolding knight_step_iff using t0 by auto
    have b: "cursor ([(1, sx, sy, 0)] ! 0) \<le> k" by (simp add: cursor_def)
    have e: "0 < length [(1::int, sx, sy, 0::nat)]" by simp
    show ?thesis by (rule pendingI [OF e a b k])
  qed
  show ?thesis unfolding solve_inv_def using 1 2 3 by simp
qed

lemma solve_fresh:
  assumes ib: "in_board n (sx, sy)"
  shows "solve (KnightsTour n) sx sy =
           solve_loop \<lparr>size_kt = n, board = board_set (empty_board n) sx sy 0, path = [(sx, sy)]\<rparr>
             [(1, sx, sy, 0)]"
  unfolding solve_def KnightsTour_def
  using board_store_in_board [OF wf_empty_board ib] by simp

lemma solve_total:
  assumes ib: "in_board n (sx, sy)"
  shows "\<exists>b s'. solve (KnightsTour n) sx sy = Some (Inr (b, s')) \<and> size_kt s' = n \<and>
           (b \<longrightarrow> board_inv s' \<and> is_tour n (sx, sy) (path s')) \<and>
           (\<not> b \<longrightarrow> (\<forall>t. \<not> is_tour n (sx, sy) t) \<and> board s' = empty_board n \<and> path s' = [])"
  unfolding solve_fresh [OF ib] using solve_init_inv [OF ib] by (rule solve_loop_total)

lemma knight_path_snoc:
  "knight_path (ps @ [q]) = (knight_path ps \<and> (ps \<noteq> [] \<longrightarrow> knight_step (last ps) q))"
  by (induction ps rule: knight_path.induct) auto

lemma consider_moves_sound:
  "consider_moves rnd f s x y prefs g = Inr (moves, g') \<Longrightarrow>
   \<forall>m \<in> set moves. is_valid_move s (fst (snd m)) (snd (snd m)) \<and> knight_step (x, y) (snd m)"
proof (induction prefs arbitrary: g moves)
  case Nil
  then show ?case by simp
next
  case (Cons p prefs)
  show ?case
  proof (cases "is_valid_move s (x + moves_x ! p) (y + moves_y ! p)")
    case False
    with Cons.prems have "consider_moves rnd f s x y prefs g = Inr (moves, g')"
      by (simp split: if_splits)
    then show ?thesis by (rule Cons.IH)
  next
    case True
    obtain r g1 where r: "rnd g = (r, g1)" by (cases "rnd g")
    from Cons.prems have p8: "p < 8" by (simp split: if_splits)
    from Cons.prems True r p8 obtain ms where
      rec: "consider_moves rnd f s x y prefs g1 = Inr (ms, g')"
      and mv: "moves = (f s (x + moves_x ! p) (y + moves_y ! p)
                  (count_valid_moves s (x + moves_x ! p) (y + moves_y ! p)) (r * (1 / 10)) p,
                x + moves_x ! p, y + moves_y ! p) # ms"
      by (auto simp: Let_def split: sum.splits)
    have "knight_step (x, y) (x + moves_x ! p, y + moves_y ! p)"
      unfolding knight_step_iff using p8 by auto
    with Cons.IH [OF rec] True show ?thesis unfolding mv by simp
  qed
qed

lemma get_next_move_sound:
  assumes "get_next_move_warnsdorff_generic_detailed rnd f s x y prefs g = Inr (Some (nx, ny), g')"
  shows "is_valid_move s nx ny \<and> knight_step (x, y) (nx, ny)"
proof -
  from assms obtain moves where cm: "consider_moves rnd f s x y prefs g = Inr (moves, g')"
    and ne: "moves \<noteq> []" and best: "(nx, ny) = snd (hd (sort_key fst moves))"
    unfolding get_next_move_warnsdorff_generic_detailed_def
    by (auto simp: Let_def split: sum.splits if_splits)
  have "length (sort_key fst moves) = length moves" by simp
  then have "sort_key fst moves \<noteq> []" using ne by (metis length_0_conv)
  then have "hd (sort_key fst moves) \<in> set (sort_key fst moves)" by (rule hd_in_set)
  then have "hd (sort_key fst moves) \<in> set moves" by simp
  with consider_moves_sound [OF cm] best show ?thesis by (metis fst_conv snd_conv)
qed

lemma upto_Cons_eq: "a # as = [i..j] \<Longrightarrow> a = i \<and> as = [i + 1..j] \<and> i \<le> j"
  by (cases "i \<le> j") (simp_all add: upto_rec1)

lemma upto_Nil_eq: "[] = [i..j] \<Longrightarrow> j < i"
  by (cases "i \<le> j") (simp_all add: upto_rec1)

lemma warnsdorff_loop_inv:
  assumes "board_inv s" "knight_path (path s)" "path s \<noteq> []" "last (path s) = (cx, cy)"
    and "mcs = [int (length (path s))..m]"
    and "warnsdorff_loop rnd f prefs mcs s cx cy g = Inr (b, s', g')"
  shows "board_inv s' \<and> knight_path (path s') \<and> size_kt s' = size_kt s \<and> path s' \<noteq> [] \<and>
         hd (path s') = hd (path s) \<and>
         (if b then int (length (path s')) = max (int (length (path s))) (m + 1)
          else int (length (path s')) \<le> m)"
  using assms
proof (induction mcs arbitrary: s cx cy g)
  case Nil
  from upto_Nil_eq [OF Nil.prems(5)] Nil.prems show ?case by auto
next
  case (Cons mc rest)
  from upto_Cons_eq [OF Cons.prems(5)]
  have mc: "mc = int (length (path s))" and rest: "rest = [int (length (path s)) + 1..m]"
    and le: "int (length (path s)) \<le> m" by auto
  show ?case
  proof (cases "get_next_move_warnsdorff_generic_detailed rnd f s cx cy prefs g")
    case (Inl e)
    with Cons.prems(6) show ?thesis by simp
  next
    case (Inr r)
    obtain mv g1 where r: "r = (mv, g1)" by (cases r)
    show ?thesis
    proof (cases mv)
      case None
      with Inr r Cons.prems(6) have "b = False" "s' = s" by simp_all
      with Cons.prems le show ?thesis by simp
    next
      case (Some p)
      obtain nx ny where p: "p = (nx, ny)" by (cases p)
      let ?s1 = "place_move s nx ny mc"
      from Inr r Some p have gm:
        "get_next_move_warnsdorff_generic_detailed rnd f s cx cy prefs g = Inr (Some (nx, ny), g1)"
        by simp
      from get_next_move_sound [OF gm]
      have v: "is_valid_move s nx ny" and ks: "knight_step (cx, cy) (nx, ny)" by auto
      have run: "warnsdorff_loop rnd f prefs rest ?s1 nx ny g1 = Inr (b, s', g')"
        using Cons.prems(6) gm by simp
      have 1: "board_inv ?s1" using Cons.prems(1) v mc by (rule place_move_inv)
      have 2: "knight_path (path ?s1)"
        using Cons.prems(2,4) ks by (simp add: knight_path_snoc)
      have 3: "path ?s1 \<noteq> []" "last (path ?s1) = (nx, ny)" by simp_all
      have 4: "rest = [int (length (path ?s1))..m]" using rest by (simp add: add.commute)
      from Cons.IH [OF 1 2 3 4 run]
      have ih: "board_inv s' \<and> knight_path (path s') \<and> size_kt s' = size_kt ?s1 \<and> path s' \<noteq> [] \<and>
         hd (path s') = hd (path ?s1) \<and>
         (if b then int (length (path s')) = max (int (length (path ?s1))) (m + 1)
          else int (length (path s')) \<le> m)" .
      have "hd (path ?s1) = hd (path s)" using Cons.prems(3) by simp
      moreover have "max (int (length (path ?s1))) (m + 1) = max (int (length (path s))) (m + 1)"
        using le by simp
      ultimately show ?thesis using ih by simp
    qed
  qed
qed

lemma variation_fresh:
  assumes ib: "in_board n (sx, sy)"
  shows "solve_with_warnsdorff_variation rnd (KnightsTour n) sx sy v prefs g =
         warnsdorff_loop rnd
           (if v = 1 then score_center else if v = 2 then score_corners else score_random)
           prefs [1..n * n - 1]
           \<lparr>size_kt = n, board = board_set (empty_board n) sx sy 0, path = [(sx, sy)]\<rparr> sx sy g"
  unfolding solve_with_warnsdorff_variation_def KnightsTour_def
  using board_store_in_board [OF wf_empty_board ib] by (simp add: Let_def)

lemma variation_result:
  assumes ib: "in_board n (sx, sy)"
    and run: "solve_with_warnsdorff_variation rnd (KnightsTour n) sx sy v prefs g = Inr (b, s', g')"
  shows "board_inv s' \<and> knight_path (path s') \<and> size_kt s' = n \<and> path s' \<noteq> [] \<and>
         hd (path s') = (sx, sy) \<and>
         (if b then int (length (path s')) = n * n else int (length (path s')) < n * n)"
proof -
  let ?s = "\<lparr>size_kt = n, board = board_set (empty_board n) sx sy 0, path = [(sx, sy)]\<rparr>"
  have n1: "1 \<le> n" using ib by (simp add: in_board_def)
  then have "1 * 1 \<le> n * n" by (intro mult_mono) simp_all
  then have nn: "1 \<le> n * n" by simp
  have 1: "board_inv ?s" using ib by (rule start_inv)
  have 2: "knight_path (path ?s)" "path ?s \<noteq> []" "last (path ?s) = (sx, sy)" by simp_all
  have 3: "[1..n * n - 1] = [int (length (path ?s))..n * n - 1]" by simp
  from warnsdorff_loop_inv [OF 1 2 3 run [unfolded variation_fresh [OF ib]]] nn
  show ?thesis by (auto split: if_splits)
qed

lemma card_cells: "0 \<le> n \<Longrightarrow> card {c. in_board n c} = nat (n * n)"
proof -
  assume n: "0 \<le> n"
  have "{c. in_board n c} = {0..<n} \<times> {0..<n}"
    by (auto simp: in_board_def)
  then show ?thesis using n by (simp add: nat_mult_distrib)
qed

lemma finite_cells: "finite {c. in_board n c}"
proof -
  have "{c. in_board n c} = {0..<n} \<times> {0..<n}"
    by (auto simp: in_board_def)
  then show ?thesis by simp
qed

lemma count_list_distinct:
  "distinct xs \<Longrightarrow> x \<in> set xs \<Longrightarrow> count_list xs x = 1"
  by (induction xs) auto

lemma tour_covers:
  assumes t: "is_tour n start t" and c: "in_board n c"
  shows "count_list t c = 1"
proof -
  from c have n: "0 \<le> n" by (simp add: in_board_def)
  from t have d: "distinct t" and sub: "set t \<subseteq> {c. in_board n c}"
    and len: "length t = nat (n * n)" by (auto simp: is_tour_def)
  have "card (set t) = card {c. in_board n c}"
    using d len card_cells [OF n] by (simp add: distinct_card)
  with sub have "set t = {c. in_board n c}"
    using finite_cells by (intro card_subset_eq) auto
  with c have "c \<in> set t" by simp
  with d show ?thesis by (rule count_list_distinct)
qed

lemma solve_size_3: "solve (KnightsTour 3) 0 0 = Some (Inr (False, KnightsTour 3))"
  "solve (KnightsTour 3) 0 1 = Some (Inr (False, KnightsTour 3))"
  "solve (KnightsTour 3) 0 2 = Some (Inr (False, KnightsTour 3))"
  "solve (KnightsTour 3) 1 0 = Some (Inr (False, KnightsTour 3))"
  "solve (KnightsTour 3) 1 1 = Some (Inr (False, KnightsTour 3))"
  "solve (KnightsTour 3) 1 2 = Some (Inr (False, KnightsTour 3))"
  "solve (KnightsTour 3) 2 0 = Some (Inr (False, KnightsTour 3))"
  "solve (KnightsTour 3) 2 1 = Some (Inr (False, KnightsTour 3))"
  "solve (KnightsTour 3) 2 2 = Some (Inr (False, KnightsTour 3))"
  by code_simp+

lemma set_cells: "set (cells n) = {c. in_board n c}"
  by (auto simp: cells_def in_board_def)

lemma distinct_cells: "distinct (cells n)"
  by (simp add: cells_def distinct_product)

lemma board_inv_order:
  assumes inv: "board_inv s"
  shows "order_invariant s"
proof -
  let ?n = "size_kt s"
  let ?k = "int (length (path s))"
  from inv have inb: "\<forall>p \<in> set (path s). in_board ?n p"
    and d: "distinct (path s)"
    and ord: "\<forall>j < length (path s). cell_value s (path s ! j) = int j"
    and un: "\<forall>c. in_board ?n c \<longrightarrow> c \<notin> set (path s) \<longrightarrow> cell_value s c = - 1"
    by (auto simp: board_inv_def cell_value_def)
  have val: "cell_value s c = int j \<longleftrightarrow> c = path s ! j"
    if c: "in_board ?n c" and j: "j < length (path s)" for c j
  proof
    assume v: "cell_value s c = int j"
    then have "cell_value s c \<noteq> - 1" by simp
    with un c have "c \<in> set (path s)" by blast
    then obtain i where i: "i < length (path s)" "c = path s ! i" by (auto simp: in_set_conv_nth)
    with ord v have "i = j" by auto
    with i show "c = path s ! j" by simp
  next
    assume "c = path s ! j"
    with ord j show "cell_value s c = int j" by simp
  qed
  have 1: "length (filter (\<lambda>c. cell_value s c = j) (cells ?n)) = 1"
    if j: "j \<in> set [0..?k - 1]" for j
  proof -
    from j obtain j' where j': "j = int j'" "j' < length (path s)"
      by (auto intro: that [of "nat j"])
    have m: "path s ! j' \<in> set (cells ?n)" using inb j'(2) by (simp add: set_cells)
    have "\<And>c. c \<in> set (cells ?n) \<Longrightarrow> (cell_value s c = j) = (c = path s ! j')"
      using val [OF _ j'(2)] j'(1) by (simp add: set_cells)
    then have "{c \<in> set (cells ?n). cell_value s c = j} = {c \<in> set (cells ?n). c = path s ! j'}"
      by blast
    also have "\<dots> = {path s ! j'}" using m by blast
    finally have "set (filter (\<lambda>c. cell_value s c = j) (cells ?n)) = {path s ! j'}"
      by simp
    moreover have "distinct (filter (\<lambda>c. cell_value s c = j) (cells ?n))"
      using distinct_cells by simp
    ultimately have "length (filter (\<lambda>c. cell_value s c = j) (cells ?n)) = card {path s ! j'}"
      by (metis distinct_card)
    then show ?thesis by simp
  qed
  have 2: "cell_value s c = - 1 \<or> (0 \<le> cell_value s c \<and> cell_value s c < ?k)"
    if c: "c \<in> set (cells ?n)" for c
  proof (cases "c \<in> set (path s)")
    case True
    then obtain i where i: "i < length (path s)" "c = path s ! i" by (auto simp: in_set_conv_nth)
    with ord have "cell_value s c = int i" by simp
    with i show ?thesis by simp
  next
    case False
    from c have "in_board ?n c" by (simp add: set_cells)
    with un False have "cell_value s c = - 1" by blast
    then show ?thesis by simp
  qed
  have 3: "path s ! j \<in> set (cells ?n) \<and> cell_value s (path s ! j) = int j"
    if j: "j < length (path s)" for j
    using inb ord j by (simp add: set_cells)
  show ?thesis unfolding order_invariant_def Let_def using 1 2 3 by blast
qed

lemma solve_reach_inv:
  assumes ib: "in_board n (sx, sy)"
    and r: "solve_reach (KnightsTour n) sx sy s stack"
  shows "solve_inv n (sx, sy) s stack"
  using r
proof (induction rule: solve_reach.induct)
  case (solve_start b)
  have "board (KnightsTour n) = empty_board n" by (simp add: KnightsTour_def)
  with solve_start board_store_in_board [OF wf_empty_board ib, of 0]
  have "b = board_set (empty_board n) sx sy 0" by simp
  then show ?case using solve_init_inv [OF ib] by (simp add: KnightsTour_def)
next
  case (solve_step s stack s' stack')
  from solve_body_cases [OF solve_step.IH solve_step.hyps(2)] solve_step.hyps(3)
  show ?case by auto
qed

lemma warnsdorff_reach_inv:
  assumes ib: "in_board n (sx, sy)"
    and r: "warnsdorff_reach rnd f prefs (KnightsTour n) sx sy g0 mcs s cx cy g"
  shows "board_inv s \<and> mcs = [int (length (path s))..n * n - 1]"
  using r
proof (induction rule: warnsdorff_reach.induct)
  case (warnsdorff_start b)
  have "board (KnightsTour n) = empty_board n" by (simp add: KnightsTour_def)
  with warnsdorff_start board_store_in_board [OF wf_empty_board ib, of 0]
  have "b = board_set (empty_board n) sx sy 0" by simp
  then show ?case using start_inv [OF ib] by (simp add: KnightsTour_def)
next
  case (warnsdorff_step mc rest s cx cy g nx ny g')
  then have inv: "board_inv s" and l: "mc # rest = [int (length (path s))..n * n - 1]" by simp_all
  from upto_Cons_eq [OF l] have mc: "mc = int (length (path s))"
    and rest: "rest = [int (length (path s)) + 1..n * n - 1]" by simp_all
  from get_next_move_sound [OF warnsdorff_step.hyps(2)] have v: "is_valid_move s nx ny" by simp
  have "board_inv (place_move s nx ny mc)" using inv v mc by (rule place_move_inv)
  with rest show ?case by (simp add: add.commute)
qed

lemma reset_fresh: "s\<lparr>board := empty_board (size_kt s), path := []\<rparr> = KnightsTour (size_kt s)"
  by (cases s) (simp add: KnightsTour_def)

lemma attempts_loop_Cons:
  "attempts_loop R hash sx sy (a # as) s seen stats g =
     (case spec_attempt R (size_kt s) sx sy a of
        Inl e \<Rightarrow> Inl e
      | Inr (success, s2, g2) \<Rightarrow>
          (if success \<and> get_path_hash hash s2 \<notin> seen
           then Inr (True, s2, stats @ [spec_record R (size_kt s) sx sy a], g2)
           else attempts_loop R hash sx sy as s2
                  (if length (path s2) > 0 then insert (get_path_hash hash s2) seen else seen)
                  (stats @ [spec_record R (size_kt s) sx sy a]) g2))"
proof -
  obtain prefs g1 where sh: "shuffle_rng R (seed_rng R (a + size_kt s * 1000)) [0..<8] = (prefs, g1)"
    by (cases "shuffle_rng R (seed_rng R (a + size_kt s * 1000)) [0..<8]")
  have sa: "spec_attempt R (size_kt s) sx sy a =
      solve_with_warnsdorff_variation (random_rng R) (KnightsTour (size_kt s)) sx sy (a mod 3) prefs g1"
    using sh by (simp add: spec_attempt_def Let_def mult.commute)
  show ?thesis
  proof (cases "solve_with_warnsdorff_variation (random_rng R) (KnightsTour (size_kt s)) sx sy (a mod 3) prefs g1")
    case (Inl e)
    then show ?thesis using sh sa by (simp add: Let_def reset_fresh)
  next
    case (Inr r)
    obtain success s2 g2 where r: "r = (success, s2, g2)" by (cases r)
    have rec: "spec_record R (size_kt s) sx sy a =
       \<lparr>info_attempt = a + 1, info_variation_type = a mod 3,
        info_random_seed = a + size_kt s * 1000, info_move_preferences = prefs,
        info_start_position = (sx, sy), info_successful = success,
        info_path_length = length (path s2)\<rparr>"
      using sh sa Inr r by (simp add: spec_record_def mult.commute)
    show ?thesis using sh sa Inr r rec by (simp add: Let_def reset_fresh)
  qed
qed

lemma spec_attempt_result:
  assumes ib: "in_board n (sx, sy)" and r: "spec_attempt R n sx sy i = Inr (b, s', g')"
  shows "board_inv s' \<and> knight_path (path s') \<and> size_kt s' = n \<and> path s' \<noteq> [] \<and>
         hd (path s') = (sx, sy) \<and>
         (if b then int (length (path s')) = n * n else int (length (path s')) < n * n)"
proof -
  obtain prefs g1 where sh: "shuffle_rng R (seed_rng R (i + 1000 * n)) [0..<8] = (prefs, g1)"
    by (cases "shuffle_rng R (seed_rng R (i + 1000 * n)) [0..<8]")
  with r have "solve_with_warnsdorff_variation (random_rng R) (KnightsTour n) sx sy (i mod 3) prefs g1
                 = Inr (b, s', g')"
    by (simp add: spec_attempt_def Let_def)
  from variation_result [OF ib this] show ?thesis .
qed

lemma set_upto_Suc: "0 \<le> a \<Longrightarrow> set [0..a] = insert a (set [0..a - 1])"
  by auto

lemma attempts_loop_char:
  assumes ib: "in_board n (sx, sy)" and n: "size_kt s = n"
    and as: "as = [a..m]" and a0: "0 \<le> a"
    and seen: "seen = attempt_fp R hash n sx sy ` set [0..a - 1]"
    and run: "attempts_loop R hash sx sy as s seen stats g = Inr (b, s', stats', g')"
  shows "(b \<longrightarrow> (\<exists>k. a \<le> k \<and> k \<le> m \<and> spec_attempt R n sx sy k = Inr (True, s', g') \<and>
                   novel_success R hash n sx sy k \<and>
                   (\<forall>j. a \<le> j \<and> j < k \<longrightarrow> \<not> novel_success R hash n sx sy j) \<and>
                   stats' = stats @ map (spec_record R n sx sy) [a..k])) \<and>
         (\<not> b \<longrightarrow> (\<forall>j. a \<le> j \<and> j \<le> m \<longrightarrow> \<not> novel_success R hash n sx sy j) \<and>
                   stats' = stats @ map (spec_record R n sx sy) [a..m] \<and>
                   (if a \<le> m then \<exists>bm. spec_attempt R n sx sy m = Inr (bm, s', g')
                    else s' = s \<and> g' = g))"
  using n as a0 seen run
proof (induction as arbitrary: a s seen stats g)
  case Nil
  from upto_Nil_eq [OF Nil.prems(2)] have "m < a" .
  with Nil.prems(5) show ?case by auto
next
  case (Cons a' rest)
  from upto_Cons_eq [OF Cons.prems(2)]
  have a': "a' = a" and rest: "rest = [a + 1..m]" and le: "a \<le> m" by auto
  note run = Cons.prems(5) [unfolded a' attempts_loop_Cons Cons.prems(1)]
  show ?case
  proof (cases "spec_attempt R n sx sy a")
    case (Inl e)
    with run show ?thesis by simp
  next
    case (Inr r)
    obtain success s2 g2 where r: "r = (success, s2, g2)" by (cases r)
    note sa = Inr [unfolded r]
    from spec_attempt_result [OF ib sa] have n2: "size_kt s2 = n" and p2: "path s2 \<noteq> []" by auto
    have fp: "attempt_fp R hash n sx sy a = get_path_hash hash s2"
      using sa by (simp add: attempt_fp_def)
    have nov: "novel_success R hash n sx sy a = (success \<and> get_path_hash hash s2 \<notin> seen)"
      using sa Cons.prems(4) by (simp add: novel_success_def)
    show ?thesis
    proof (cases "success \<and> get_path_hash hash s2 \<notin> seen")
      case True
      with run sa have res: "b" "s' = s2" "g' = g2"
        "stats' = stats @ [spec_record R n sx sy a]" by auto
      have "[a..a] = [a]" by (simp add: upto_rec1)
      with res True sa nov le show ?thesis by auto
    next
      case False
      let ?seen' = "insert (get_path_hash hash s2) seen"
      from run sa False p2
      have rec: "attempts_loop R hash sx sy rest s2 ?seen' (stats @ [spec_record R n sx sy a]) g2
                  = Inr (b, s', stats', g')" by auto
      have "set [0..(a + 1) - 1] = insert a (set [0..a - 1])"
        using set_upto_Suc [OF Cons.prems(3)] by simp
      then have seen': "?seen' = attempt_fp R hash n sx sy ` set [0..(a + 1) - 1]"
        unfolding Cons.prems(4) fp [symmetric] by (simp only: image_insert)
      have a1: "0 \<le> a + 1" using Cons.prems(3) by simp
      note ih = Cons.IH [OF n2 rest a1 seen' rec]
      have nn: "\<not> novel_success R hash n sx sy a" using nov False by simp
      have shift: "\<And>k. a \<le> k \<Longrightarrow> [a..k] = a # [a + 1..k]" by (simp add: upto_rec1)
      have lower: "\<And>j P. a \<le> j \<Longrightarrow> (j = a \<Longrightarrow> P) \<Longrightarrow> (a + 1 \<le> j \<Longrightarrow> P) \<Longrightarrow> P" by linarith
      show ?thesis
      proof (rule conjI; rule impI)
        assume b
        with ih obtain k where k: "a + 1 \<le> k" "k \<le> m"
          "spec_attempt R n sx sy k = Inr (True, s', g')" "novel_success R hash n sx sy k"
          "\<forall>j. a + 1 \<le> j \<and> j < k \<longrightarrow> \<not> novel_success R hash n sx sy j"
          "stats' = (stats @ [spec_record R n sx sy a]) @ map (spec_record R n sx sy) [a + 1..k]"
          by blast
        have "\<forall>j. a \<le> j \<and> j < k \<longrightarrow> \<not> novel_success R hash n sx sy j"
          using k(5) nn by (metis lower)
        moreover have "stats' = stats @ map (spec_record R n sx sy) [a..k]"
          using k(6) shift [of k] k(1) by simp
        ultimately show "\<exists>k. a \<le> k \<and> k \<le> m \<and> spec_attempt R n sx sy k = Inr (True, s', g') \<and>
                   novel_success R hash n sx sy k \<and>
                   (\<forall>j. a \<le> j \<and> j < k \<longrightarrow> \<not> novel_success R hash n sx sy j) \<and>
                   stats' = stats @ map (spec_record R n sx sy) [a..k]"
          using k(1-4) by (intro exI [of _ k]) simp
      next
        assume nb: "\<not> b"
        with ih have i1: "\<forall>j. a + 1 \<le> j \<and> j \<le> m \<longrightarrow> \<not> novel_success R hash n sx sy j"
          and i2: "stats' = (stats @ [spec_record R n sx sy a]) @ map (spec_record R n sx sy) [a + 1..m]"
          and i3: "if a + 1 \<le> m then \<exists>bm. spec_attempt R n sx sy m = Inr (bm, s', g')
                    else s' = s2 \<and> g' = g2" by auto
        have c1: "\<forall>j. a \<le> j \<and> j \<le> m \<longrightarrow> \<not> novel_success R hash n sx sy j"
          using i1 nn by (metis lower)
        have c2: "stats' = stats @ map (spec_record R n sx sy) [a..m]"
          using i2 shift [OF le] by simp
        have c3: "\<exists>bm. spec_attempt R n sx sy m = Inr (bm, s', g')"
        proof (cases "a + 1 \<le> m")
          case True
          with i3 show ?thesis by simp
        next
          case False
          with le have "m = a" by simp
          with i3 False sa show ?thesis by auto
        qed
        from c1 c2 c3 le
        show "(\<forall>j. a \<le> j \<and> j \<le> m \<longrightarrow> \<not> novel_success R hash n sx sy j) \<and>
                   stats' = stats @ map (spec_record R n sx sy) [a..m] \<and>
                   (if a \<le> m then \<exists>bm. spec_attempt R n sx sy m = Inr (bm, s', g')
                    else s' = s \<and> g' = g)" by simp
      qed
    qed
  qed
qed

lemma solve_body_Return: "solve_body s stack = Return b \<Longrightarrow> b"
  by (auto simp: solve_body_def Let_def split: prod.splits option.splits if_splits)

lemma solve_loop_failure_clean:
  assumes "solve_loop s stack = Some r"
  shows "\<forall>s'. r = Inr (False, s') \<longrightarrow> board s' = empty_board (size_kt s') \<and> path s' = []"
proof (rule solve_loop.raw_induct
    [where P = "\<lambda>s stack r. \<forall>s'. r = Inr (False, s') \<longrightarrow>
                  board s' = empty_board (size_kt s') \<and> path s' = []", OF _ assms])
  fix f :: "knights_tour \<Rightarrow> frame list \<Rightarrow> (error + bool \<times> knights_tour) option"
    and s stack r
  assume ih: "\<And>s1 stack1 r1. f s1 stack1 = Some r1 \<Longrightarrow>
      \<forall>s'. r1 = Inr (False, s') \<longrightarrow> board s' = empty_board (size_kt s') \<and> path s' = []"
    and eq: "(if stack = []
       then Some (Inr (False, s\<lparr>board := empty_board (size_kt s), path := []\<rparr>))
       else case solve_body s stack of Return b \<Rightarrow> Some (Inr (b, s))
            | Next s' stack' \<Rightarrow> f s' stack' | Raise e \<Rightarrow> Some (Inl e)) = Some r"
  show "\<forall>s'. r = Inr (False, s') \<longrightarrow> board s' = empty_board (size_kt s') \<and> path s' = []"
  proof (cases "stack = []")
    case True
    with eq show ?thesis by auto
  next
    case False
    show ?thesis
    proof (cases "solve_body s stack")
      case (Return b)
      with solve_body_Return [OF Return] eq False show ?thesis by auto
    next
      case (Next s1 stack1)
      with eq False have "f s1 stack1 = Some r" by simp
      from ih [OF this] show ?thesis .
    next
      case (Raise e)
      with eq False show ?thesis by auto
    qed
  qed
qed

lemma solve_failure_clean:
  assumes "solve s sx sy = Some (Inr (False, s'))"
  shows "board s' = empty_board (size_kt s') \<and> path s' = []"
proof (cases "board_store (board s) sx sy 0")
  case (Inl e)
  with assms show ?thesis by (simp add: solve_def)
next
  case (Inr b)
  with assms have "solve_loop (s\<lparr>board := b, path := [(sx, sy)]\<rparr>) [(1, sx, sy, 0)]
                     = Some (Inr (False, s'))" by (simp add: solve_def)
  from solve_loop_failure_clean [OF this] show ?thesis by simp
qed

lemma cell_value_empty: "c \<in> set (cells n) \<Longrightarrow> cell_value \<lparr>size_kt = n, board = empty_board n, path = p\<rparr> c = - 1"
  using board_at_empty [of n "fst c" "snd c"] by (simp add: set_cells cell_value_def)

lemma start_cell_value:
  assumes "board_inv s" "path s \<noteq> []"
  shows "cell_value s (hd (path s)) = 0"
proof -
  from assms(2) have "0 < length (path s)" by simp
  with assms(1) have "cell_value s (path s ! 0) = int 0"
    unfolding board_inv_def cell_value_def by blast
  with assms(2) show ?thesis by (simp add: hd_conv_nth)
qed

lemma orchestrator_failure_state:
  assumes ib: "in_board n (sx, sy)" and n: "size_kt s = n" and m: "1 \<le> max_attempts"
    and run: "solve_with_multiple_warnsdorff_attempts R hash s sx sy max_attempts g
                = Inr (False, s', stats', g')"
  shows "\<exists>bm. spec_attempt R n sx sy (max_attempts - 1) = Inr (bm, s', g')"
proof -
  have seen: "{} = attempt_fp R hash n sx sy ` set [0..0 - 1]" by simp
  from attempts_loop_char [OF ib n refl order_refl seen
      run [unfolded solve_with_multiple_warnsdorff_attempts_def]] m
  show ?thesis by auto
qed

lemma demo_run_length_hash:
  "solve_with_multiple_warnsdorff_attempts demo_rng length_hash (KnightsTour 5) 1 1 2 0
     = Inr (True, demo_state, demo_stats, 5001)"
  by code_simp

lemma orchestrator_char:
  assumes ib: "in_board n (sx, sy)" and n: "size_kt s = n"
    and run: "solve_with_multiple_warnsdorff_attempts R hash s sx sy max_attempts g
                = Inr (b, s', stats', g')"
  shows "(b \<longrightarrow> (\<exists>k. 0 \<le> k \<and> k \<le> max_attempts - 1 \<and>
                   spec_attempt R n sx sy k = Inr (True, s', g') \<and>
                   novel_success R hash n sx sy k \<and>
                   (\<forall>j. 0 \<le> j \<and> j < k \<longrightarrow> \<not> novel_success R hash n sx sy j) \<and>
                   stats' = map (spec_record R n sx sy) [0..k])) \<and>
         (\<not> b \<longrightarrow> (\<forall>j. 0 \<le> j \<and> j \<le> max_attempts - 1 \<longrightarrow> \<not> novel_success R hash n sx sy j) \<and>
                   stats' = map (spec_record R n sx sy) [0..max_attempts - 1])"
proof -
  have seen: "{} = attempt_fp R hash n sx sy ` set [0..0 - 1]" by simp
  from attempts_loop_char [OF ib n refl order_refl seen
      run [unfolded solve_with_multiple_warnsdorff_attempts_def]]
  show ?thesis by simp
qed

lemma orchestrator_independent:
  assumes m: "1 \<le> max_attempts" and n: "size_kt s2 = size_kt s"
  shows "solve_with_multiple_warnsdorff_attempts R hash s2 sx sy max_attempts g2
           = solve_with_multiple_warnsdorff_attempts R hash s sx sy max_attempts g"
proof -
  from m have u: "[0..max_attempts - 1] = 0 # [1..max_attempts - 1]" by (simp add: upto_rec1)
  show ?thesis
    unfolding solve_with_multiple_warnsdorff_attempts_def u attempts_loop_Cons n ..
qed







lemma length_draws [simp]: "length (draws rnd g k) = k"
  by (induction k arbitrary: g) simp_all


lemma get_next_move_of_moves:
  assumes "consider_moves rnd f s x y prefs g = Inr (mv, g1)"
  shows "get_next_move_warnsdorff_generic_detailed rnd f s x y prefs g =
           (if mv = [] then Inr (None, g1)
            else Inr (Some (snd (hd (sort_key fst mv))), g1))"
  unfolding get_next_move_warnsdorff_generic_detailed_def assms by (simp add: Let_def)



lemma variation_scoring_of:
  "solve_with_warnsdorff_variation rnd s sx sy v prefs g =
     (case board_store (board s) sx sy 0 of
        Inl e \<Rightarrow> Inl e
      | Inr b \<Rightarrow> warnsdorff_loop rnd (scoring_of v) prefs [1..size_kt s * size_kt s - 1]
                   (s\<lparr>board := b, path := [(sx, sy)]\<rparr>) sx sy g)"
  unfolding solve_with_warnsdorff_variation_def scoring_of_def Let_def by simp

lemma consider_moves_same:
  assumes ss: "same_stream rel rnd rnd'" and r: "rel g h"
  shows "rel_sum (=) (rel_prod (=) rel)
           (consider_moves rnd f s x y prefs g) (consider_moves rnd' f s x y prefs h)"
  using r
proof (induction prefs arbitrary: g h)
  case Nil
  then show ?case by simp
next
  case (Cons p prefs)
  show ?case
  proof (cases "8 \<le> p")
    case True
    then show ?thesis by simp
  next
    case False
    show ?thesis
    proof (cases "is_valid_move s (x + moves_x ! p) (y + moves_y ! p)")
      case nv: False
      with False Cons.IH [OF Cons.prems] show ?thesis by simp
    next
      case v: True
      obtain a g1 where a: "rnd g = (a, g1)" by (cases "rnd g")
      obtain b h1 where b: "rnd' h = (b, h1)" by (cases "rnd' h")
      from ss Cons.prems a b have ab: "a = b" and r1: "rel g1 h1"
        unfolding same_stream_def by fastforce+
      from Cons.IH [OF r1]
      have ih: "rel_sum (=) (rel_prod (=) rel)
           (consider_moves rnd f s x y prefs g1) (consider_moves rnd' f s x y prefs h1)" .
      show ?thesis
      proof (cases "consider_moves rnd f s x y prefs g1")
        case (Inl e)
        with ih obtain e' where "consider_moves rnd' f s x y prefs h1 = Inl e'" "e = e'"
          by (cases "consider_moves rnd' f s x y prefs h1") auto
        with Inl False v a b show ?thesis by (simp add: Let_def)
      next
        case (Inr m)
        obtain ms g2 where m: "m = (ms, g2)" by (cases m)
        with ih Inr obtain h2 where "consider_moves rnd' f s x y prefs h1 = Inr (ms, h2)" "rel g2 h2"
          by (cases "consider_moves rnd' f s x y prefs h1") auto
        with Inr m False v a b ab show ?thesis by (simp add: Let_def)
      qed
    qed
  qed
qed

lemma get_next_move_same:
  assumes ss: "same_stream rel rnd rnd'" and r: "rel g h"
  shows "rel_sum (=) (rel_prod (=) rel)
           (get_next_move_warnsdorff_generic_detailed rnd f s x y prefs g)
           (get_next_move_warnsdorff_generic_detailed rnd' f s x y prefs h)"
proof (cases "consider_moves rnd f s x y prefs g")
  case (Inl e)
  with consider_moves_same [OF ss r, of f s x y prefs]
  have "consider_moves rnd' f s x y prefs h = Inl e"
    by (cases "consider_moves rnd' f s x y prefs h") auto
  with Inl show ?thesis by (simp add: get_next_move_warnsdorff_generic_detailed_def)
next
  case (Inr m)
  obtain ms g2 where m: "m = (ms, g2)" by (cases m)
  with consider_moves_same [OF ss r, of f s x y prefs] Inr
  obtain h2 where c: "consider_moves rnd' f s x y prefs h = Inr (ms, h2)" and r2: "rel g2 h2"
    by (cases "consider_moves rnd' f s x y prefs h") auto
  show ?thesis
    unfolding get_next_move_of_moves [OF Inr [unfolded m]] get_next_move_of_moves [OF c]
    using r2 by simp
qed

lemma warnsdorff_loop_same:
  assumes ss: "same_stream rel rnd rnd'" and r: "rel g h"
  shows "rel_sum (=) (rel_prod (=) (rel_prod (=) rel))
           (warnsdorff_loop rnd f prefs mcs s cx cy g)
           (warnsdorff_loop rnd' f prefs mcs s cx cy h)"
  using r
proof (induction mcs arbitrary: s cx cy g h)
  case Nil
  then show ?case by simp
next
  case (Cons mc rest)
  note gs = get_next_move_same [OF ss Cons.prems, of f s cx cy prefs]
  show ?case
  proof (cases "get_next_move_warnsdorff_generic_detailed rnd f s cx cy prefs g")
    case (Inl e)
    with gs have "get_next_move_warnsdorff_generic_detailed rnd' f s cx cy prefs h = Inl e"
      by (cases "get_next_move_warnsdorff_generic_detailed rnd' f s cx cy prefs h") auto
    with Inl show ?thesis by simp
  next
    case (Inr m)
    obtain mv g1 where m: "m = (mv, g1)" by (cases m)
    with gs Inr obtain h1 where
      c: "get_next_move_warnsdorff_generic_detailed rnd' f s cx cy prefs h = Inr (mv, h1)"
      and r1: "rel g1 h1"
      by (cases "get_next_move_warnsdorff_generic_detailed rnd' f s cx cy prefs h") auto
    show ?thesis
    proof (cases mv)
      case None
      with Inr m c r1 show ?thesis by simp
    next
      case (Some p)
      obtain nx ny where p: "p = (nx, ny)" by (cases p)
      from Cons.IH [OF r1, of "place_move s nx ny mc" nx ny]
      show ?thesis using Inr m c Some p by simp
    qed
  qed
qed

section \<open>The claims\<close>

text \<open>
  C9. \<open>solve\<close> terminates for every board size \<open>N \<ge> 1\<close> and every start cell in the
  board, when called on a freshly constructed board: the loop returns a result (no
  exception and no endless run), whether or not a tour exists.
\<close>

theorem solve_terminates:
  "1 \<le> n \<Longrightarrow> in_board n (sx, sy) \<Longrightarrow> \<exists>b s'. solve (KnightsTour n) sx sy = Some (Inr (b, s'))"
  using solve_total [of n sx sy] by blast

theorem solve_terminates_witness:
  "(1::int) \<le> 3 \<and> in_board 3 (0, 0) \<and> (\<exists>b s'. solve (KnightsTour 3) 0 0 = Some (Inr (b, s')))"
  using solve_terminates [of 3 0 0] by (simp add: in_board_def)

text \<open>
  C1. \<open>solve\<close> is exhaustive: on a fresh board and from a start cell in the board it
  returns failure only if no knight's tour from that cell exists on the \<open>N \<times> N\<close> board;
  and on the \<open>3 \<times> 3\<close> board it returns failure (with the board and path reset) from
  every start cell.
\<close>

theorem solve_exhaustive:
  "(in_board n (sx, sy) \<longrightarrow> solve (KnightsTour n) sx sy = Some (Inr (False, s'))
      \<longrightarrow> \<not> (\<exists>t. is_tour n (sx, sy) t)) \<and>
   (in_board 3 (ax, ay) \<longrightarrow> solve (KnightsTour 3) ax ay = Some (Inr (False, KnightsTour 3)))"
proof (intro conjI impI)
  assume ib: "in_board n (sx, sy)" and r: "solve (KnightsTour n) sx sy = Some (Inr (False, s'))"
  from solve_total [OF ib] r show "\<not> (\<exists>t. is_tour n (sx, sy) t)" by auto
next
  assume "in_board 3 (ax, ay)"
  then have "(ax = 0 \<or> ax = 1 \<or> ax = 2) \<and> (ay = 0 \<or> ay = 1 \<or> ay = 2)"
    unfolding in_board_def by auto
  then show "solve (KnightsTour 3) ax ay = Some (Inr (False, KnightsTour 3))"
    using solve_size_3 by auto
qed

theorem solve_exhaustive_witness:
  "in_board 3 (0, 0) \<and> solve (KnightsTour 3) 0 0 = Some (Inr (False, KnightsTour 3)) \<and>
   \<not> (\<exists>t. is_tour 3 (0, 0) t)"
  using solve_exhaustive [of 3 0 0 "KnightsTour 3" 0 0] by (simp add: in_board_def)

text \<open>
  C2. Whenever \<open>solve\<close> or a single Warnsdorff attempt
  (\<open>_solve_with_warnsdorff_variation\<close>), run on a fresh \<open>N \<times> N\<close> board from a start
  cell in the board, returns success, the path has length \<open>N\<^sup>2\<close>, all its coordinates
  are in the board, every cell of the board occurs in it exactly once, and consecutive
  positions differ by one of the eight knight offsets.
\<close>

theorem success_is_tour:
  assumes ib: "in_board n (sx, sy)"
    and ok: "solve (KnightsTour n) sx sy = Some (Inr (True, s')) \<or>
             solve_with_warnsdorff_variation rnd (KnightsTour n) sx sy v prefs g = Inr (True, s', g')"
  shows "length (path s') = nat (n * n) \<and>
         (\<forall>p \<in> set (path s'). in_board n p) \<and>
         (\<forall>c. in_board n c \<longrightarrow> count_list (path s') c = 1) \<and>
         (\<forall>i. i + 1 < length (path s') \<longrightarrow> knight_step (path s' ! i) (path s' ! (i + 1)))"
proof -
  have t: "is_tour n (sx, sy) (path s')"
    using ok
  proof
    assume "solve (KnightsTour n) sx sy = Some (Inr (True, s'))"
    with solve_total [OF ib] show ?thesis by auto
  next
    assume r: "solve_with_warnsdorff_variation rnd (KnightsTour n) sx sy v prefs g = Inr (True, s', g')"
    from variation_result [OF ib r] show ?thesis
      by (auto simp: is_tour_def board_inv_def)
  qed
  then have "length (path s') = nat (n * n)" "\<forall>p \<in> set (path s'). in_board n p" "knight_path (path s')"
    by (simp_all add: is_tour_def)
  moreover have "\<forall>c. in_board n c \<longrightarrow> count_list (path s') c = 1"
    using tour_covers [OF t] by blast
  ultimately show ?thesis using knight_path_nth by blast
qed

theorem success_is_tour_witness:
  "in_board 5 (0, 0) \<and>
   solve_with_warnsdorff_variation count_rnd (KnightsTour 5) 0 0 0 [0..<8] 0
     = Inr (True, tour5, 48) \<and>
   length (path tour5) = 25 \<and>
   list_all (in_board 5) (path tour5) \<and>
   count_list (path tour5) (3, 4) = 1 \<and>
   knight_step (path tour5 ! 23) (path tour5 ! 24)"
proof -
  have ib: "in_board 5 (0, 0)" by (simp add: in_board_def)
  have r: "solve_with_warnsdorff_variation count_rnd (KnightsTour 5) 0 0 0 [0..<8] 0
             = Inr (True, tour5, 48)"
    by code_simp
  have l: "23 + 1 < length (path tour5)" by (simp add: tour5_def)
  have c: "in_board 5 (3, 4)" by (simp add: in_board_def)
  note t = success_is_tour [OF ib disjI2 [OF r]]
  from t have 1: "length (path tour5) = 25" by simp
  from t have 2: "list_all (in_board 5) (path tour5)" unfolding list_all_iff by blast
  from t c have 3: "count_list (path tour5) (3, 4) = 1" by blast
  from t l have "knight_step (path tour5 ! 23) (path tour5 ! (23 + 1))" by blast
  then have 4: "knight_step (path tour5 ! 23) (path tour5 ! 24)" by simp
  from ib r 1 2 3 4 show ?thesis by blast
qed

text \<open>
  C8. At every point of a search started on a fresh board from a cell in the board,
  with \<open>k\<close> cells placed (the length of the path): exactly one cell of the board holds
  each order value \<open>0..k-1\<close>, every other cell holds \<open>-1\<close>, and the \<open>j\<close>-th element of the
  path is the cell that holds \<open>j\<close>. The points of a search are the states reached by
  the placements of the Warnsdorff loop (\<open>warnsdorff_reach\<close>) and by the passes of the
  backtracking loop, each of which places or undoes a move (\<open>solve_reach\<close>).
\<close>

theorem order_invariant_preserved:
  assumes "in_board n (sx, sy)"
    and "warnsdorff_reach rnd f prefs (KnightsTour n) sx sy g0 mcs s cx cy g \<or>
         solve_reach (KnightsTour n) sx sy s stack"
  shows "order_invariant s"
  using assms warnsdorff_reach_inv solve_reach_inv board_inv_order
  unfolding solve_inv_def by metis

theorem order_invariant_preserved_witness:
  "in_board 3 (0, 0) \<and>
   solve_reach (KnightsTour 3) 0 0
     \<lparr>size_kt = 3, board = [[0, - 1, - 1], [- 1, - 1, - 1], [- 1, 1, - 1]],
      path = [(0, 0), (2, 1)]\<rparr>
     [(1, 0, 0, 1), (2, 2, 1, 0)] \<and>
   order_invariant
     \<lparr>size_kt = 3, board = [[0, - 1, - 1], [- 1, - 1, - 1], [- 1, 1, - 1]],
      path = [(0, 0), (2, 1)]\<rparr>"
proof -
  let ?s0 = "\<lparr>size_kt = 3, board = [[0, - 1, - 1], [- 1, - 1, - 1], [- 1, - 1, - 1]],
              path = [(0, 0)]\<rparr>"
  let ?s1 = "\<lparr>size_kt = 3, board = [[0, - 1, - 1], [- 1, - 1, - 1], [- 1, 1, - 1]],
              path = [(0, 0), (2, 1)]\<rparr>"
  have ib: "in_board 3 (0, 0)" by (simp add: in_board_def)
  have "board_store (board (KnightsTour 3)) 0 0 0
          = Inr [[0, - 1, - 1], [- 1, - 1, - 1], [- 1, - 1, - 1]]"
    by code_simp
  from solve_start [OF this]
  have "solve_reach (KnightsTour 3) 0 0
          (KnightsTour 3\<lparr>board := [[0, - 1, - 1], [- 1, - 1, - 1], [- 1, - 1, - 1]],
                          path := [(0, 0)]\<rparr>) [(1, 0, 0, 0)]" .
  then have a: "solve_reach (KnightsTour 3) 0 0 ?s0 [(1, 0, 0, 0)]"
    by (simp add: KnightsTour_def)
  have b: "solve_body ?s0 [(1, 0, 0, 0)] = Next ?s1 [(1, 0, 0, 1), (2, 2, 1, 0)]"
    by code_simp
  have r: "solve_reach (KnightsTour 3) 0 0 ?s1 [(1, 0, 0, 1), (2, 2, 1, 0)]"
    using a _ b by (rule solve_step) simp
  from order_invariant_preserved [OF ib disjI2 [OF r]] ib r show ?thesis by simp
qed

text \<open>
  C3, as amended. When \<open>solve\<close> returns failure, the path is empty and every cell of
  the board holds \<open>-1\<close>. A failed Warnsdorff attempt (on a fresh board, from a start
  cell in the board) and the orchestrator that has used up a budget of at least one
  attempt return failure without a reset: the path is not empty, it begins at the start
  cell, which holds order 0 on the board; for the single attempt the path is shorter
  than \<open>N\<^sup>2\<close>.
\<close>

theorem failure_state:
  "(solve s sx sy = Some (Inr (False, s')) \<longrightarrow>
      path s' = [] \<and> board s' = empty_board (size_kt s') \<and>
      (\<forall>c \<in> set (cells (size_kt s')). cell_value s' c = - 1)) \<and>
   (in_board n (ax, ay) \<longrightarrow>
      solve_with_warnsdorff_variation rnd (KnightsTour n) ax ay variation prefs g
        = Inr (False, s1, g1) \<longrightarrow>
      path s1 \<noteq> [] \<and> hd (path s1) = (ax, ay) \<and> cell_value s1 (ax, ay) = 0 \<and>
      int (length (path s1)) < n * n) \<and>
   (in_board n (ax, ay) \<longrightarrow> size_kt s0 = n \<longrightarrow> 1 \<le> max_attempts \<longrightarrow>
      solve_with_multiple_warnsdorff_attempts R hash s0 ax ay max_attempts g0
        = Inr (False, s2, stats, g2) \<longrightarrow>
      path s2 \<noteq> [] \<and> hd (path s2) = (ax, ay) \<and> cell_value s2 (ax, ay) = 0)"
proof (intro conjI impI)
  assume a: "solve s sx sy = Some (Inr (False, s'))"
  from solve_failure_clean [OF a] show "path s' = []" "board s' = empty_board (size_kt s')"
    by simp_all
  then have "s' = \<lparr>size_kt = size_kt s', board = empty_board (size_kt s'), path = []\<rparr>"
    by (cases s') simp
  then show "\<forall>c \<in> set (cells (size_kt s')). cell_value s' c = - 1"
    using cell_value_empty [of _ "size_kt s'" "[]"] by metis
next
  assume ib: "in_board n (ax, ay)"
    and r: "solve_with_warnsdorff_variation rnd (KnightsTour n) ax ay variation prefs g
              = Inr (False, s1, g1)"
  from variation_result [OF ib r]
  have f: "board_inv s1" "path s1 \<noteq> []" "hd (path s1) = (ax, ay)" "int (length (path s1)) < n * n"
    by simp_all
  from f show "path s1 \<noteq> []" "hd (path s1) = (ax, ay)" "int (length (path s1)) < n * n"
    by simp_all
  from start_cell_value [OF f(1,2)] f(3) show "cell_value s1 (ax, ay) = 0" by simp
next
  assume ib: "in_board n (ax, ay)" and n: "size_kt s0 = n" and m: "1 \<le> max_attempts"
    and r: "solve_with_multiple_warnsdorff_attempts R hash s0 ax ay max_attempts g0
              = Inr (False, s2, stats, g2)"
  from orchestrator_failure_state [OF ib n m r] obtain bm where
    "spec_attempt R n ax ay (max_attempts - 1) = Inr (bm, s2, g2)" by blast
  from spec_attempt_result [OF ib this]
  have f: "board_inv s2" "path s2 \<noteq> []" "hd (path s2) = (ax, ay)" by simp_all
  from f show "path s2 \<noteq> []" "hd (path s2) = (ax, ay)" by simp_all
  from start_cell_value [OF f(1,2)] f(3) show "cell_value s2 (ax, ay) = 0" by simp
qed

theorem failure_state_witness:
  "solve (KnightsTour 3) 0 0 = Some (Inr (False, KnightsTour 3)) \<and>
   path (KnightsTour 3) = [] \<and>
   cell_value (KnightsTour 3) (1, 2) = - 1 \<and>
   in_board 2 (0, 0) \<and>
   solve_with_warnsdorff_variation count_rnd (KnightsTour 2) 0 0 0 [0..<8] 0
     = Inr (False, \<lparr>size_kt = 2, board = [[0, - 1], [- 1, - 1]], path = [(0, 0)]\<rparr>, 0) \<and>
   path \<lparr>size_kt = 2, board = [[0, - 1], [- 1, - 1]], path = [(0, 0)]\<rparr> \<noteq> [] \<and>
   solve_with_multiple_warnsdorff_attempts demo_rng const_hash (KnightsTour 2) 0 0 1 7
     = Inr (False, \<lparr>size_kt = 2, board = [[0, - 1], [- 1, - 1]], path = [(0, 0)]\<rparr>,
        [\<lparr>info_attempt = 1, info_variation_type = 0, info_random_seed = 2000,
          info_move_preferences = [0, 1, 2, 4, 3, 5, 6, 7],
          info_start_position = (0, 0), info_successful = False,
          info_path_length = 1\<rparr>], 2000) \<and>
   cell_value \<lparr>size_kt = 2, board = [[0, - 1], [- 1, - 1]], path = [(0, 0)]\<rparr> (0, 0) = 0"
proof -
  let ?s = "\<lparr>size_kt = 2, board = [[0, - 1], [- 1, - 1]], path = [(0, 0)]\<rparr>"
  let ?st = "[\<lparr>info_attempt = 1, info_variation_type = 0, info_random_seed = 2000,
          info_move_preferences = [0, 1, 2, 4, 3, 5, 6, 7],
          info_start_position = (0, 0), info_successful = False,
          info_path_length = 1\<rparr>]"
  have a: "solve (KnightsTour 3) 0 0 = Some (Inr (False, KnightsTour 3))" by code_simp
  have ib: "in_board 2 (0, 0)" by (simp add: in_board_def)
  have b: "solve_with_warnsdorff_variation count_rnd (KnightsTour 2) 0 0 0 [0..<8] 0
     = Inr (False, ?s, 0)" by code_simp
  have c: "solve_with_multiple_warnsdorff_attempts demo_rng const_hash (KnightsTour 2) 0 0 1 7
     = Inr (False, ?s, ?st, 2000)" by code_simp
  have sz: "size_kt (KnightsTour 2) = 2" by (simp add: KnightsTour_def)
  have m: "(1::int) \<le> 1" by simp
  have cm: "(1, 2) \<in> set (cells (size_kt (KnightsTour 3)))" by code_simp
  note t = failure_state [of "KnightsTour 3" 0 0 "KnightsTour 3" 2 0 0 count_rnd 0 "[0..<8]" 0
      ?s 0 "KnightsTour 2" 1 demo_rng const_hash 7 ?s ?st 2000]
  from t a have 1: "path (KnightsTour 3) = []"
    "\<forall>c \<in> set (cells (size_kt (KnightsTour 3))). cell_value (KnightsTour 3) c = - 1" by blast+
  from 1(2) cm have 2: "cell_value (KnightsTour 3) (1, 2) = - 1" by blast
  from t ib b have 3: "path ?s \<noteq> []" by blast
  from t ib sz m c have 4: "cell_value ?s (0, 0) = 0" by blast
  from a 1(1) 2 ib b 3 c 4 show ?thesis by blast
qed

theorem failure_not_clean_counterexample:
  "solve_with_warnsdorff_variation count_rnd (KnightsTour 2) 0 0 0 [0..<8] 0
     = Inr (False, \<lparr>size_kt = 2, board = [[0, - 1], [- 1, - 1]], path = [(0, 0)]\<rparr>, 0)"
  by code_simp

text \<open>
  C4, as amended. In a run of \<open>solve_with_multiple_warnsdorff_attempts\<close> (start cell in
  the board), call an attempt novel when it succeeds and its path fingerprint differs
  from the fingerprint of the path left by every earlier attempt of the run, failed or
  not (\<open>novel_success\<close>); a success that is not novel is the duplicate of the source.
  The run returns success at the first novel attempt, with the state of that attempt and
  one record per attempt made; it returns failure exactly when none of the
  \<open>max_attempts\<close> attempts is novel, after making all of them.
\<close>

theorem duplicate_policy:
  assumes ib: "in_board n (sx, sy)" and n: "size_kt s = n"
    and run: "solve_with_multiple_warnsdorff_attempts R hash s sx sy max_attempts g
                = Inr (b, s', stats', g')"
  shows "(b \<longrightarrow> (\<exists>k. 0 \<le> k \<and> k < max_attempts \<and>
                   spec_attempt R n sx sy k = Inr (True, s', g') \<and>
                   novel_success R hash n sx sy k \<and>
                   (\<forall>j. 0 \<le> j \<and> j < k \<longrightarrow> \<not> novel_success R hash n sx sy j) \<and>
                   int (length stats') = k + 1)) \<and>
         (\<not> b \<longrightarrow> (\<forall>j. 0 \<le> j \<and> j < max_attempts \<longrightarrow> \<not> novel_success R hash n sx sy j) \<and>
                   int (length stats') = max 0 max_attempts)"
proof (rule conjI; rule impI)
  assume b
  with orchestrator_char [OF ib n run] obtain k where k: "0 \<le> k" "k \<le> max_attempts - 1"
    "spec_attempt R n sx sy k = Inr (True, s', g')" "novel_success R hash n sx sy k"
    "\<forall>j. 0 \<le> j \<and> j < k \<longrightarrow> \<not> novel_success R hash n sx sy j"
    "stats' = map (spec_record R n sx sy) [0..k]" by blast
  have "int (length stats') = k + 1" using k(1,6) by simp
  with k show "\<exists>k. 0 \<le> k \<and> k < max_attempts \<and>
                   spec_attempt R n sx sy k = Inr (True, s', g') \<and>
                   novel_success R hash n sx sy k \<and>
                   (\<forall>j. 0 \<le> j \<and> j < k \<longrightarrow> \<not> novel_success R hash n sx sy j) \<and>
                   int (length stats') = k + 1"
    by (intro exI [of _ k]) simp
next
  assume "\<not> b"
  with orchestrator_char [OF ib n run]
  have 1: "\<forall>j. 0 \<le> j \<and> j \<le> max_attempts - 1 \<longrightarrow> \<not> novel_success R hash n sx sy j"
    and 2: "stats' = map (spec_record R n sx sy) [0..max_attempts - 1]" by blast+
  from 2 have "int (length stats') = max 0 max_attempts" by simp
  with 1 show "(\<forall>j. 0 \<le> j \<and> j < max_attempts \<longrightarrow> \<not> novel_success R hash n sx sy j) \<and>
                   int (length stats') = max 0 max_attempts" by simp
qed

theorem duplicate_policy_witness:
  "in_board 5 (1, 1) \<and> size_kt (KnightsTour 5) = 5 \<and>
   solve_with_multiple_warnsdorff_attempts demo_rng length_hash (KnightsTour 5) 1 1 2 0
     = Inr (True, demo_state, demo_stats, 5001) \<and>
   spec_attempt demo_rng 5 1 1 1 = Inr (True, demo_state, 5001) \<and>
   novel_success demo_rng length_hash 5 1 1 1 \<and>
   \<not> novel_success demo_rng length_hash 5 1 1 0 \<and>
   length demo_stats = 2"
proof -
  have ib: "in_board 5 (1, 1)" by (simp add: in_board_def)
  have sz: "size_kt (KnightsTour 5) = 5" by (simp add: KnightsTour_def)
  note t = duplicate_policy [OF ib sz demo_run_length_hash]
  then obtain k where k: "0 \<le> k" "k < 2"
    "spec_attempt demo_rng 5 1 1 k = Inr (True, demo_state, 5001)"
    "novel_success demo_rng length_hash 5 1 1 k"
    "\<forall>j. 0 \<le> j \<and> j < k \<longrightarrow> \<not> novel_success demo_rng length_hash 5 1 1 j"
    "int (length demo_stats) = k + 1" by auto
  have "length demo_stats = 2" by (simp add: demo_stats_def)
  with k(6) have k1: "k = 1" by simp
  from k k1 have "\<not> novel_success demo_rng length_hash 5 1 1 0" by simp
  with k k1 ib sz demo_run_length_hash \<open>length demo_stats = 2\<close> show ?thesis by simp
qed

theorem duplicate_policy_counterexample:
  "solve_with_multiple_warnsdorff_attempts demo_rng const_hash (KnightsTour 5) 1 1 2 0
     = Inr (False, demo_state, demo_stats, 5001) \<and>
   map info_successful demo_stats = [False, True]"
  by code_simp

text \<open>
  C5. The record of the \<open>i\<close>-th attempt (counted from 0) of a run is \<open>spec_record\<close>:
  variant \<open>i mod 3\<close>, seed \<open>i + 1000 N\<close>, the preference order that \<open>random.shuffle\<close>
  gives for \<open>range(8)\<close> right after seeding, and the outcome of the single attempt on a
  fresh board with an empty path (\<open>spec_attempt\<close>). The result of a run with at least
  one attempt does not depend on the board, the path or the generator state it starts
  from: two invocations with the same size, start and budget return the same. When
  \<open>shuffle\<close> permutes its argument, each preference order is a permutation of the eight
  move indices.
\<close>

theorem attempts_policy:
  assumes ib: "in_board n (sx, sy)" and n: "size_kt s = n"
    and run: "solve_with_multiple_warnsdorff_attempts R hash s sx sy max_attempts g
                = Inr (b, s', stats', g')"
  shows "(\<forall>i < length stats'.
            stats' ! i = spec_record R n sx sy (int i) \<and>
            info_variation_type (stats' ! i) = int i mod 3 \<and>
            info_random_seed (stats' ! i) = int i + 1000 * n \<and>
            info_move_preferences (stats' ! i)
              = fst (shuffle_rng R (seed_rng R (int i + 1000 * n)) [0..<8])) \<and>
         (\<forall>s2 g2. 1 \<le> max_attempts \<longrightarrow> size_kt s2 = n \<longrightarrow>
            solve_with_multiple_warnsdorff_attempts R hash s2 sx sy max_attempts g2
              = Inr (b, s', stats', g')) \<and>
         ((\<forall>g xs. distinct xs \<longrightarrow> distinct (fst (shuffle_rng R g xs)) \<and>
                                  set (fst (shuffle_rng R g xs)) = set xs) \<longrightarrow>
          (\<forall>i < length stats'. distinct (info_move_preferences (stats' ! i)) \<and>
                               set (info_move_preferences (stats' ! i)) = {0..<8}))"
proof -
  from orchestrator_char [OF ib n run] obtain k where
    st: "stats' = map (spec_record R n sx sy) [0..k]"
    by (cases b) auto
  have 1: "stats' ! i = spec_record R n sx sy (int i)" if "i < length stats'" for i
    using that unfolding st by simp
  have 2: "\<forall>i < length stats'.
            stats' ! i = spec_record R n sx sy (int i) \<and>
            info_variation_type (stats' ! i) = int i mod 3 \<and>
            info_random_seed (stats' ! i) = int i + 1000 * n \<and>
            info_move_preferences (stats' ! i)
              = fst (shuffle_rng R (seed_rng R (int i + 1000 * n)) [0..<8])"
    using 1 by (simp add: spec_record_def)
  have 3: "\<forall>s2 g2. 1 \<le> max_attempts \<longrightarrow> size_kt s2 = n \<longrightarrow>
            solve_with_multiple_warnsdorff_attempts R hash s2 sx sy max_attempts g2
              = Inr (b, s', stats', g')"
  proof (intro allI impI)
    fix s2 :: knights_tour and g2 :: 'a
    assume "1 \<le> max_attempts" "size_kt s2 = n"
    then show "solve_with_multiple_warnsdorff_attempts R hash s2 sx sy max_attempts g2
              = Inr (b, s', stats', g')"
      using orchestrator_independent [of max_attempts s2 s R hash sx sy g2 g] n run by simp
  qed
  have 4: "(\<forall>g xs. distinct xs \<longrightarrow> distinct (fst (shuffle_rng R g xs)) \<and>
                                  set (fst (shuffle_rng R g xs)) = set xs) \<longrightarrow>
          (\<forall>i < length stats'. distinct (info_move_preferences (stats' ! i)) \<and>
                               set (info_move_preferences (stats' ! i)) = {0..<8})"
  proof (intro impI allI)
    fix i
    assume sh: "\<forall>g xs. distinct xs \<longrightarrow> distinct (fst (shuffle_rng R g xs)) \<and>
                                  set (fst (shuffle_rng R g xs)) = set xs"
      and i: "i < length stats'"
    have "distinct [0..<8::nat]" by simp
    with sh have "distinct (fst (shuffle_rng R (seed_rng R (int i + 1000 * n)) [0..<8])) \<and>
        set (fst (shuffle_rng R (seed_rng R (int i + 1000 * n)) [0..<8])) = set [0..<8]"
      by blast
    moreover from 2 i have "info_move_preferences (stats' ! i)
              = fst (shuffle_rng R (seed_rng R (int i + 1000 * n)) [0..<8])" by blast
    ultimately show "distinct (info_move_preferences (stats' ! i)) \<and>
                               set (info_move_preferences (stats' ! i)) = {0..<8}" by simp
  qed
  from 2 3 4 show ?thesis by blast
qed

theorem attempts_policy_witness:
  "in_board 5 (1, 1) \<and> size_kt (KnightsTour 5) = 5 \<and>
   solve_with_multiple_warnsdorff_attempts demo_rng length_hash (KnightsTour 5) 1 1 2 0
     = Inr (True, demo_state, demo_stats, 5001) \<and>
   demo_stats ! 1 = spec_record demo_rng 5 1 1 1 \<and>
   info_variation_type (demo_stats ! 1) = 1 \<and>
   info_random_seed (demo_stats ! 1) = 5001 \<and>
   solve_with_multiple_warnsdorff_attempts demo_rng length_hash demo_state 1 1 2 77
     = Inr (True, demo_state, demo_stats, 5001)"
proof -
  have ib: "in_board 5 (1, 1)" by (simp add: in_board_def)
  have sz: "size_kt (KnightsTour 5) = 5" by (simp add: KnightsTour_def)
  have sz2: "size_kt demo_state = 5" by (simp add: demo_state_def)
  have l: "1 < length demo_stats" by (simp add: demo_stats_def)
  note t = attempts_policy [OF ib sz demo_run_length_hash]
  from t l have 1: "demo_stats ! 1 = spec_record demo_rng 5 1 1 (int 1)"
    "info_variation_type (demo_stats ! 1) = int 1 mod 3"
    "info_random_seed (demo_stats ! 1) = int 1 + 1000 * 5" by blast+
  from t sz2 have 2: "solve_with_multiple_warnsdorff_attempts demo_rng length_hash demo_state 1 1 2 77
     = Inr (True, demo_state, demo_stats, 5001)" by simp
  from ib sz demo_run_length_hash 1 2 show ?thesis by simp
qed

text \<open>
  C10. On the \<open>1 \<times> 1\<close> board from \<open>(0, 0)\<close> the single Warnsdorff attempt and \<open>solve\<close>
  succeed with path \<open>[(0, 0)]\<close> and the cell holding 0. The attempt leaves the
  generator state as it was and succeeds for every preference list, also one whose
  indices would raise if a move were looked up; \<open>solve\<close> returns in the first pass of
  its loop.
\<close>

theorem degenerate_board:
  "solve_with_warnsdorff_variation rnd (KnightsTour 1) 0 0 variation prefs g
     = Inr (True, \<lparr>size_kt = 1, board = [[0]], path = [(0, 0)]\<rparr>, g) \<and>
   solve (KnightsTour 1) 0 0 = Some (Inr (True, \<lparr>size_kt = 1, board = [[0]], path = [(0, 0)]\<rparr>)) \<and>
   solve_body \<lparr>size_kt = 1, board = [[0]], path = [(0, 0)]\<rparr> [(1, 0, 0, 0)] = Return True"
proof -
  have b: "board_store (empty_board 1) 0 0 0 = Inr [[0]]"
    by (simp add: board_store_def py_index_def empty_board_def)
  have 1: "solve_with_warnsdorff_variation rnd (KnightsTour 1) 0 0 variation prefs g
     = Inr (True, \<lparr>size_kt = 1, board = [[0]], path = [(0, 0)]\<rparr>, g)"
    by (simp add: solve_with_warnsdorff_variation_def KnightsTour_def b)
  have 3: "solve_body \<lparr>size_kt = 1, board = [[0]], path = [(0, 0)]\<rparr> [(1, 0, 0, 0)] = Return True"
    by (simp add: solve_body_def)
  have 2: "solve (KnightsTour 1) 0 0 = Some (Inr (True, \<lparr>size_kt = 1, board = [[0]], path = [(0, 0)]\<rparr>))"
    by (simp add: solve_def KnightsTour_def b solve_loop.simps 3)
  from 1 2 3 show ?thesis by simp
qed

theorem degenerate_board_witness:
  "solve_with_warnsdorff_variation count_rnd (KnightsTour 1) 0 0 2 [9] 0
     = Inr (True, \<lparr>size_kt = 1, board = [[0]], path = [(0, 0)]\<rparr>, 0) \<and>
   solve (KnightsTour 1) 0 0 = Some (Inr (True, \<lparr>size_kt = 1, board = [[0]], path = [(0, 0)]\<rparr>))"
  using degenerate_board [of count_rnd 2 "[9]" 0] by simp



text \<open>
  C7. A single Warnsdorff attempt is determined by its inputs and by the values the
  generator returns: two runs from the same object state, start cell, variant and
  preference order, with generators that produce the same stream of values (related by
  \<open>rel\<close>, whatever their internal states are), have the same outcome: the same
  exception, or the same success flag with the same board and path.
\<close>

theorem single_attempt_deterministic:
  assumes "same_stream rel rnd rnd'" and "rel g h"
  shows "outcome (solve_with_warnsdorff_variation rnd s start_x start_y variation prefs g)
           = outcome (solve_with_warnsdorff_variation rnd' s start_x start_y variation prefs h)"
proof (cases "board_store (board s) start_x start_y 0")
  case (Inl e)
  then show ?thesis by (simp add: variation_scoring_of outcome_def)
next
  case (Inr b)
  let ?s = "s\<lparr>board := b, path := [(start_x, start_y)]\<rparr>"
  let ?mcs = "[1..size_kt s * size_kt s - 1]"
  from warnsdorff_loop_same [OF assms, of "scoring_of variation" prefs ?mcs ?s start_x start_y]
  have "outcome (warnsdorff_loop rnd (scoring_of variation) prefs ?mcs ?s start_x start_y g)
          = outcome (warnsdorff_loop rnd' (scoring_of variation) prefs ?mcs ?s start_x start_y h)"
    unfolding outcome_def
    by (cases "warnsdorff_loop rnd (scoring_of variation) prefs ?mcs ?s start_x start_y g";
        cases "warnsdorff_loop rnd' (scoring_of variation) prefs ?mcs ?s start_x start_y h")
       auto
  with Inr show ?thesis by (simp add: variation_scoring_of)
qed

theorem single_attempt_deterministic_witness:
  "same_stream (\<lambda>(g::nat) (h::int). True) count_rnd (random_rng demo_rng) \<and>
   outcome (solve_with_warnsdorff_variation count_rnd (KnightsTour 5) 0 0 0 [0..<8] 0)
     = outcome (solve_with_warnsdorff_variation (random_rng demo_rng) (KnightsTour 5) 0 0 0
                  [0..<8] 17) \<and>
   outcome (solve_with_warnsdorff_variation (random_rng demo_rng) (KnightsTour 5) 0 0 0
              [0..<8] 17) = Inr (True, tour5)"
proof -
  have ss: "same_stream (\<lambda>(g::nat) (h::int). True) count_rnd (random_rng demo_rng)"
    by (simp add: same_stream_def count_rnd_def demo_rng_def)
  have run: "solve_with_warnsdorff_variation count_rnd (KnightsTour 5) 0 0 0 [0..<8] 0
             = Inr (True, tour5, 48)" by code_simp
  note t = single_attempt_deterministic [OF ss TrueI, of "KnightsTour 5" 0 0 0 "[0..<8]" 0 17]
  from t run have "outcome (solve_with_warnsdorff_variation (random_rng demo_rng) (KnightsTour 5) 0 0 0
              [0..<8] 17) = Inr (True, tour5)"
    by (simp add: outcome_def)
  with ss t show ?thesis by simp
qed

end
